theory Spec2Isabelle
  imports Complex_Main "HOL-Library.Sublist"
begin

section \<open>Python strings\<close>

text \<open>
  A Python \<^verbatim>\<open>str\<close> is a sequence of Unicode code points; it is modelled as a list of
  natural numbers. \<open>str\<close> turns an ASCII literal into that representation.
\<close>

type_synonym pystr = "nat list"

definition str :: "string \<Rightarrow> pystr" where
  "str s = map of_char s"

text \<open>
  \<^verbatim>\<open>str.isspace\<close>, \<^verbatim>\<open>str.strip()\<close> and the class \<^verbatim>\<open>\s\<close> of \<^verbatim>\<open>re\<close> on a \<^verbatim>\<open>str\<close> pattern
  all use the same set of whitespace code points; \<^verbatim>\<open>str.splitlines\<close> uses the set of
  line boundaries.
\<close>

definition is_space :: "nat \<Rightarrow> bool" where
  "is_space c \<longleftrightarrow>
     (9 \<le> c \<and> c \<le> 13) \<or> (28 \<le> c \<and> c \<le> 32) \<or> c = 133 \<or> c = 160 \<or> c = 5760 \<or>
     (8192 \<le> c \<and> c \<le> 8202) \<or> c = 8232 \<or> c = 8233 \<or> c = 8239 \<or> c = 8287 \<or> c = 12288"

definition is_linebreak :: "nat \<Rightarrow> bool" where
  "is_linebreak c \<longleftrightarrow>
     (10 \<le> c \<and> c \<le> 13) \<or> (28 \<le> c \<and> c \<le> 30) \<or> c = 133 \<or> c = 8232 \<or> c = 8233"

definition strip :: "pystr \<Rightarrow> pystr" where
  "strip s = rev (dropWhile is_space (rev (dropWhile is_space s)))"

text \<open>\<^verbatim>\<open>s.startswith(p)\<close>\<close>

fun startswith :: "pystr \<Rightarrow> pystr \<Rightarrow> bool" where
  "startswith s [] = True"
| "startswith [] (p # ps) = False"
| "startswith (c # cs) (p # ps) = (c = p \<and> startswith cs ps)"

text \<open>\<^verbatim>\<open>sub in s\<close>\<close>

fun contains :: "pystr \<Rightarrow> pystr \<Rightarrow> bool" where
  "contains sub [] = (sub = [])"
| "contains sub (c # cs) = (startswith (c # cs) sub \<or> contains sub cs)"

text \<open>
  \<^verbatim>\<open>s.splitlines()\<close>: the text is cut at every line boundary, \<^verbatim>\<open>\r\n\<close> counting as
  one; the boundaries are not kept and a final boundary opens no empty last line.
\<close>

fun splitlines_from :: "pystr \<Rightarrow> pystr \<Rightarrow> pystr list" where
  "splitlines_from acc [] = (if acc = [] then [] else [rev acc])"
| "splitlines_from acc (c # cs) =
     (if c = 13 \<and> cs \<noteq> [] \<and> hd cs = 10 then rev acc # splitlines_from [] (tl cs)
      else if is_linebreak c then rev acc # splitlines_from [] cs
      else splitlines_from (c # acc) cs)"

definition splitlines :: "pystr \<Rightarrow> pystr list" where
  "splitlines s = splitlines_from [] s"

section \<open>The response parser\<close>

definition DELIMITER :: pystr where
  "DELIMITER = str ''====''"

definition VARIANT_MARK :: pystr where
  "VARIANT_MARK = str ''Variant:''"

definition REASONING_MARK :: pystr where
  "REASONING_MARK = str ''Reasoning:''"

text \<open>
  \<^verbatim>\<open>re.split(r"====\s*", text)\<close>: the text is scanned from the left; where the
  delimiter starts, the block read so far is closed and the scan goes on behind the
  delimiter and the longest run of whitespace after it.
\<close>

function re_split_from :: "pystr \<Rightarrow> pystr \<Rightarrow> pystr list" where
  "re_split_from acc [] = [rev acc]"
| "re_split_from acc (c # cs) =
     (if startswith (c # cs) DELIMITER
      then rev acc # re_split_from [] (dropWhile is_space (drop 4 (c # cs)))
      else re_split_from (c # acc) cs)"
  by pat_completeness auto
termination
proof (relation "measure (\<lambda>(acc, s). length s)")
  fix acc :: pystr and c :: nat and cs :: pystr
  have "length (dropWhile is_space (drop 4 (c # cs))) \<le> length (drop 4 (c # cs))"
    by (rule length_dropWhile_le)
  then show "(([], dropWhile is_space (drop 4 (c # cs))), (acc, c # cs))
      \<in> measure (\<lambda>(acc, s). length s)"
    by simp
qed simp_all

definition re_split :: "pystr \<Rightarrow> pystr list" where
  "re_split text = re_split_from [] text"

text \<open>
  \<^verbatim>\<open>re.search(r"Reasoning:\s*(.*?)\s*Variant:", block, re.DOTALL)\<close>, as the
  backtracking matcher runs it. \<open>ws_then_variant\<close> is the tail \<^verbatim>\<open>\s*Variant:\<close> at the
  start of a text: the greedy run takes whitespace first and falls back to the literal.
  \<open>lazy_group\<close> is \<^verbatim>\<open>(.*?)\<close> followed by that tail: the group grows by one character
  (any character, under DOTALL) until the tail matches. \<open>after_reasoning\<close> is the greedy
  \<^verbatim>\<open>\s*\<close> in front of the group, and \<open>re_search_reasoning\<close> tries the start positions
  from the left. The result is group 1 of the first match.
\<close>

fun ws_then_variant :: "pystr \<Rightarrow> bool" where
  "ws_then_variant [] = startswith [] VARIANT_MARK"
| "ws_then_variant (c # cs) =
     ((is_space c \<and> ws_then_variant cs) \<or> startswith (c # cs) VARIANT_MARK)"

fun lazy_group :: "pystr \<Rightarrow> pystr \<Rightarrow> pystr option" where
  "lazy_group acc [] = (if ws_then_variant [] then Some (rev acc) else None)"
| "lazy_group acc (c # cs) =
     (if ws_then_variant (c # cs) then Some (rev acc) else lazy_group (c # acc) cs)"

fun after_reasoning :: "pystr \<Rightarrow> pystr option" where
  "after_reasoning [] = lazy_group [] []"
| "after_reasoning (c # cs) =
     (if is_space c
      then (case after_reasoning cs of Some g \<Rightarrow> Some g | None \<Rightarrow> lazy_group [] (c # cs))
      else lazy_group [] (c # cs))"

fun re_search_reasoning :: "pystr \<Rightarrow> pystr option" where
  "re_search_reasoning [] = None"
| "re_search_reasoning (c # cs) =
     (if startswith (c # cs) REASONING_MARK
      then (case after_reasoning (drop 10 (c # cs)) of
              Some g \<Rightarrow> Some g
            | None \<Rightarrow> re_search_reasoning cs)
      else re_search_reasoning cs)"

text \<open>
  The dictionaries that the parser builds and the chunk generator extends: a key may be
  absent, so each field is optional.
\<close>

record variant_data =
  vd_reasoning :: "pystr option"
  vd_variant :: "pystr option"
  vd_transformations_used :: "pystr list option"

text \<open>
  The loop over the lines of a block: the first line whose stripped text starts with the
  marker gives the variant text, and the loop stops there.
\<close>

fun first_variant_line :: "pystr list \<Rightarrow> pystr option" where
  "first_variant_line [] = None"
| "first_variant_line (line # rest) =
     (if startswith (strip line) VARIANT_MARK
      then Some (strip (drop (length VARIANT_MARK) (strip line)))
      else first_variant_line rest)"

definition parse_block :: "pystr \<Rightarrow> variant_data list" where
  "parse_block block =
     (if contains VARIANT_MARK block \<and> contains REASONING_MARK block then
        (let reasoning_text = (case re_search_reasoning block of
                                 Some g \<Rightarrow> strip g
                               | None \<Rightarrow> []);
             variant_expr = first_variant_line (splitlines block)
         in (case variant_expr of
               None \<Rightarrow> []
             | Some v \<Rightarrow>
                 if v \<noteq> []
                 then [\<lparr>vd_reasoning = Some reasoning_text, vd_variant = Some v,
                        vd_transformations_used = None\<rparr>]
                 else []))
      else [])"

definition parse_variants :: "pystr \<Rightarrow> variant_data list" where
  "parse_variants text = concat (map parse_block (re_split text))"


section \<open>Variant records and the outside world\<close>

text \<open>
  The failures the code can raise: the generation service failing, the exceptions of
  \<^verbatim>\<open>random.sample\<close>, \<^verbatim>\<open>random.choice\<close> and a dictionary lookup, and the
  \<^verbatim>\<open>OverflowError\<close> of a true division whose quotient is too large for a float.
\<close>

datatype error = GenerationError | ValueError | IndexError | KeyError | OverflowError

record variant_record =
  original :: pystr
  requested_difficulty :: pystr
  variant :: pystr
  reasoning :: "pystr option"
  transformations_used :: "pystr list"
  evaluation :: "int option"
  timestamp :: pystr

record datetime =
  dt_year :: nat
  dt_month :: nat
  dt_day :: nat
  dt_hour :: nat
  dt_minute :: nat
  dt_second :: nat
  dt_microsecond :: nat

text \<open>
  Everything the program does not decide is read from tapes: the raw random draws, the
  outcome of each call of the generation service (numbered in the order of the calls),
  the readings of the clock, and the lower-casing of a text that is not pure ASCII
  (the Unicode tables). The state of a run is the position on each tape.
\<close>

record env =
  random_tape :: "nat \<Rightarrow> nat"
  reply_tape :: "nat \<Rightarrow> error + pystr"
  clock_tape :: "nat \<Rightarrow> datetime"
  unicode_lower :: "pystr \<Rightarrow> pystr"

record world =
  rand_pos :: nat
  call_pos :: nat
  clock_pos :: nat

definition randbelow :: "env \<Rightarrow> world \<Rightarrow> nat \<Rightarrow> nat \<times> world" where
  "randbelow env w n =
     (random_tape env (rand_pos w) mod n, w\<lparr>rand_pos := Suc (rand_pos w)\<rparr>)"

text \<open>\<^verbatim>\<open>random.choice(seq)\<close>: \<^verbatim>\<open>IndexError\<close> on an empty sequence.\<close>

definition random_choice :: "env \<Rightarrow> world \<Rightarrow> 'a list \<Rightarrow> (error + 'a) \<times> world" where
  "random_choice env w xs =
     (if xs = [] then (Inl IndexError, w)
      else (let (i, w') = randbelow env w (length xs) in (Inr (xs ! i), w')))"

text \<open>
  \<^verbatim>\<open>random.sample(population, k)\<close> on a short population: \<^verbatim>\<open>ValueError\<close> when the
  sample is larger than the population; otherwise \<open>k\<close> times a position of the pool is
  drawn, its element is taken, and the last element of the pool moves into its place.
\<close>

fun sample_loop :: "env \<Rightarrow> world \<Rightarrow> 'a list \<Rightarrow> nat \<Rightarrow> 'a list \<times> world" where
  "sample_loop env w pool 0 = ([], w)"
| "sample_loop env w pool (Suc k) =
     (let (j, w1) = randbelow env w (length pool);
          (rest, w2) = sample_loop env w1 (butlast (pool[j := last pool])) k
      in (pool ! j # rest, w2))"

definition random_sample :: "env \<Rightarrow> world \<Rightarrow> 'a list \<Rightarrow> nat \<Rightarrow> (error + 'a list) \<times> world" where
  "random_sample env w population k =
     (if length population < k then (Inl ValueError, w)
      else (let (chosen, w') = sample_loop env w population k in (Inr chosen, w')))"

definition utcnow :: "env \<Rightarrow> world \<Rightarrow> datetime \<times> world" where
  "utcnow env w = (clock_tape env (clock_pos w), w\<lparr>clock_pos := Suc (clock_pos w)\<rparr>)"

text \<open>
  Modelled from the spec: \<^verbatim>\<open>generate_text\<close> of \<^verbatim>\<open>utils.inference\<close>, the external
  generation service. It accepts a model identifier, an instruction text and a sampling
  temperature and returns free-form text with no schema, or fails. The outcome of the
  \<open>k\<close>-th call is whatever the reply tape holds at \<open>k\<close>.
\<close>

definition generate_text ::
  "env \<Rightarrow> world \<Rightarrow> pystr \<Rightarrow> pystr \<Rightarrow> real \<Rightarrow> (error + pystr) \<times> world" where
  "generate_text env w model prompt temperature =
     (reply_tape env (call_pos w), w\<lparr>call_pos := Suc (call_pos w)\<rparr>)"

subsection \<open>Numbers and dates as text\<close>

function decimal :: "nat \<Rightarrow> pystr" where
  "decimal n = (if n < 10 then [48 + n] else decimal (n div 10) @ [48 + n mod 10])"
  by pat_completeness auto
termination
  by (relation "measure id") auto

declare decimal.simps [simp del]

definition str_of_int :: "int \<Rightarrow> pystr" where
  "str_of_int i = (if i < 0 then str ''-'' @ decimal (nat (- i)) else decimal (nat i))"

definition zfill :: "nat \<Rightarrow> pystr \<Rightarrow> pystr" where
  "zfill width s = replicate (width - length s) 48 @ s"

text \<open>\<^verbatim>\<open>datetime.isoformat()\<close> of a naive datetime.\<close>

definition isoformat :: "datetime \<Rightarrow> pystr" where
  "isoformat d =
     zfill 4 (decimal (dt_year d)) @ str ''-'' @ zfill 2 (decimal (dt_month d)) @ str ''-'' @
     zfill 2 (decimal (dt_day d)) @ str ''T'' @ zfill 2 (decimal (dt_hour d)) @ str '':'' @
     zfill 2 (decimal (dt_minute d)) @ str '':'' @ zfill 2 (decimal (dt_second d)) @
     (if dt_microsecond d = 0 then [] else str ''.'' @ zfill 6 (decimal (dt_microsecond d)))"

text \<open>\<^verbatim>\<open>sep.join(xs)\<close>\<close>

fun join :: "pystr \<Rightarrow> pystr list \<Rightarrow> pystr" where
  "join sep [] = []"
| "join sep [x] = x"
| "join sep (x # y # ys) = x @ sep @ join sep (y # ys)"

text \<open>
  \<^verbatim>\<open>s.lower()\<close>: on pure ASCII text the letters A to Z move to a to z; any other text
  is lowered by the Unicode tables of the environment.
\<close>

definition py_lower :: "env \<Rightarrow> pystr \<Rightarrow> pystr" where
  "py_lower env s =
     (if \<forall>c \<in> set s. c < 128
      then map (\<lambda>c. if 65 \<le> c \<and> c \<le> 90 then c + 32 else c) s
      else unicode_lower env s)"

section \<open>Configuration\<close>

definition MODEL :: pystr where
  "MODEL = str ''deepseek-chat''"

definition NUM_VARIANTS :: int where
  "NUM_VARIANTS = 3"

definition RECURSION_DEPTH :: int where
  "RECURSION_DEPTH = 0"

definition DIFFICULTIES :: "pystr list" where
  "DIFFICULTIES = [str ''easier'']"

definition TRANSFORMATIONS_BY_DIFFICULTY :: "(pystr \<times> pystr list) list" where
  "TRANSFORMATIONS_BY_DIFFICULTY =
     [(str ''easier'',
        [str ''simplify the language'', str ''reduce the complexity'',
         str ''remove unnecessary details'', str ''simplify the instructions'']),
      (str ''equivalent'',
        [str ''make minor adjustments'', str ''change wording slightly'',
         str ''rephrase without altering meaning'', str ''substitute synonyms'']),
      (str ''harder'',
        [str ''add additional details'', str ''increase complexity'',
         str ''introduce more technical language'', str ''expand the prompt'',
         str ''add challenging constraints''])]"

definition PERSONAS :: "pystr list" where
  "PERSONAS =
     [str ''an expert in the field'', str ''a creative thinker'',
      str ''a seasoned professional'', str ''an enthusiastic beginner'',
      str ''a visionary strategist'', str ''a technical specialist'',
      str ''a pragmatic problem-solver'']"

text \<open>\<^verbatim>\<open>d.get(key, default)\<close>\<close>

definition dict_get :: "('k \<times> 'v) list \<Rightarrow> 'k \<Rightarrow> 'v \<Rightarrow> 'v" where
  "dict_get d key dflt = (case map_of d key of None \<Rightarrow> dflt | Some v \<Rightarrow> v)"

section \<open>The request composer\<close>

definition output_format :: pystr where
  "output_format =
     str ''====\<newline>'' @
     str ''Variant <number>:\<newline>'' @
     str ''Reasoning: <your creative chain-of-thought explanation>\<newline>'' @
     str ''Variant: <the new prompt variant>\<newline>'' @
     str ''====\<newline>\<newline>''"

definition template_options :: "pystr \<Rightarrow> pystr \<Rightarrow> int \<Rightarrow> pystr \<Rightarrow> pystr \<Rightarrow> pystr list" where
  "template_options prompt difficulty count transforms_text personas_str =
     [str ''Assume you can adopt various personas such as '' @ personas_str @
        str ''.\<newline>\<newline>'' @
      str ''Given the prompt/task: '' @ prompt @ str ''\<newline>'' @
      str ''Your task is to generate '' @ str_of_int count @
        str '' creative variant(s) that are '' @ difficulty @
        str '' than the original.\<newline>\<newline>'' @
      str ''Important constraints:\<newline>'' @
      str ''- Maintain the original intent of the prompt.\<newline>'' @
      str ''- Avoid introducing arbitrary or irrelevant changes.\<newline>'' @
      str ''- All modifications should be specific and meaningful.\<newline>\<newline>'' @
      str ''Follow these steps:\<newline>'' @
      str ''1. Analyze the original prompt deeply, looking for hidden simplifications and opportunities for improvement.\<newline>'' @
      str ''2. Think outside conventional approaches '' @ [8211] @
        str '' consider alternative phrasings, simplifications, or restructuring.\<newline>'' @
      str ''3. Draw inspiration from various fields. Some ideas: '' @ transforms_text @
        str ''\<newline>'' @
      str ''4. Provide a detailed explanation of your creative reasoning process.\<newline>'' @
      str ''5. Present each variant in the following exact format:\<newline>'' @
      output_format @
      str ''Generate truly novel variants that might surprise even experienced practitioners.'',
      str ''Channel the creative spirit of professionals like '' @ personas_str @
        str ''.\<newline>\<newline>'' @
      str ''For this task: '' @ prompt @ str ''\<newline>'' @
      str ''Create '' @ str_of_int count @ str '' variant(s) that are '' @ difficulty @
        str '' than the original prompt.\<newline>\<newline>'' @
      str ''Key points:\<newline>'' @
      str ''- Do not change the core intent of the prompt.\<newline>'' @
      str ''- All modifications must be specific and justified.\<newline>\<newline>'' @
      str ''Steps:\<newline>'' @
      str ''1. Examine the prompt carefully and identify aspects that can be simplified or modified.\<newline>'' @
      str ''2. Experiment with ideas such as: '' @ transforms_text @ str ''\<newline>'' @
      str ''3. Explain your reasoning in detail.\<newline>'' @
      str ''4. Provide your answer in the following exact format:\<newline>'' @
      output_format @
      str ''Aim to create variants that reveal new perspectives on the original prompt.'']"

definition get_random_prompt_template ::
  "env \<Rightarrow> world \<Rightarrow> pystr \<Rightarrow> pystr \<Rightarrow> int \<Rightarrow> pystr \<Rightarrow> pystr \<Rightarrow> (error + pystr) \<times> world" where
  "get_random_prompt_template env w prompt difficulty count transforms_text personas_str =
     random_choice env w (template_options prompt difficulty count transforms_text personas_str)"

section \<open>The variant record builder\<close>

definition process_single_variant ::
  "env \<Rightarrow> world \<Rightarrow> pystr \<Rightarrow> pystr \<Rightarrow> variant_data \<Rightarrow> variant_record option \<times> world" where
  "process_single_variant env w original_prompt difficulty vd =
     (case vd_variant vd of
        None \<Rightarrow> (None, w)
      | Some variant_prompt \<Rightarrow>
          if variant_prompt = [] then (None, w)
          else (let (now, w') = utcnow env w
                in (Some \<lparr>original = original_prompt,
                          requested_difficulty = difficulty,
                          variant = variant_prompt,
                          reasoning = vd_reasoning vd,
                          transformations_used =
                            (case vd_transformations_used vd of None \<Rightarrow> [] | Some ts \<Rightarrow> ts),
                          evaluation = None,
                          timestamp = isoformat now @ str ''Z''\<rparr>, w')))"

section \<open>The chunk generator\<close>

text \<open>
  The builder runs once per parsed pair, in parse order, and the results are joined in
  that order.
\<close>

fun process_all ::
  "env \<Rightarrow> world \<Rightarrow> pystr \<Rightarrow> pystr \<Rightarrow> variant_data list \<Rightarrow> variant_record option list \<times> world" where
  "process_all env w prompt difficulty [] = ([], w)"
| "process_all env w prompt difficulty (vd # vds) =
     (let (r, w1) = process_single_variant env w prompt difficulty vd;
          (rs, w2) = process_all env w1 prompt difficulty vds
      in (r # rs, w2))"

text \<open>
  The first three statements of \<^verbatim>\<open>generate_variant_chunk\<close>: the pool of the
  difficulty (or the default pool), the number of hints drawn from 3 to 6, and the
  sample of \<open>min num_choices (length transformations)\<close> hints.
\<close>

definition hint_pool :: "env \<Rightarrow> pystr \<Rightarrow> pystr list" where
  "hint_pool env difficulty =
     dict_get TRANSFORMATIONS_BY_DIFFICULTY (py_lower env difficulty)
       [str ''make a small change'']"

definition choose_transforms :: "env \<Rightarrow> world \<Rightarrow> pystr \<Rightarrow> (error + pystr list) \<times> world" where
  "choose_transforms env w difficulty =
     (let transformations = hint_pool env difficulty
      in case random_choice env w [3, 4, 5, 6 :: nat] of
           (Inl e, w1) \<Rightarrow> (Inl e, w1)
         | (Inr num_choices, w1) \<Rightarrow>
             random_sample env w1 transformations
               (min num_choices (length transformations)))"

definition generate_variant_chunk ::
  "env \<Rightarrow> world \<Rightarrow> pystr \<Rightarrow> pystr \<Rightarrow> int \<Rightarrow> (error + variant_record list) \<times> world" where
  "generate_variant_chunk env w prompt difficulty count =
     (case choose_transforms env w difficulty of
        (Inl e, w2) \<Rightarrow> (Inl e, w2)
      | (Inr chosen_transforms, w2) \<Rightarrow>
     (let transforms_text = join (str '', '') chosen_transforms;
          personas_str = join (str '', '') PERSONAS
      in case get_random_prompt_template env w2 prompt difficulty count transforms_text
                personas_str of
           (Inl e, w3) \<Rightarrow> (Inl e, w3)
         | (Inr prompt_variant, w3) \<Rightarrow>
      (case random_choice env w3 [0.8, 1.0, 1.2, 1.4 :: real] of
           (Inl e, w4) \<Rightarrow> (Inl e, w4)
         | (Inr temperature_choice, w4) \<Rightarrow>
      (case generate_text env w4 MODEL prompt_variant temperature_choice of
           (Inl e, w5) \<Rightarrow> (Inl e, w5)
         | (Inr response_text, w5) \<Rightarrow>
      (let parsed_variants =
             map (\<lambda>v. v\<lparr>vd_transformations_used := Some chosen_transforms\<rparr>)
               (parse_variants response_text);
           (processed_variants, w6) = process_all env w5 prompt difficulty parsed_variants
       in (Inr (List.map_filter id processed_variants), w6))))))"

section \<open>The orchestrator\<close>

definition buffer_multiplier :: int where
  "buffer_multiplier = 3"

subsection \<open>The float quotient\<close>

text \<open>
  \<^verbatim>\<open>total_to_request / 10\<close> is the true division of two integers: its value is the
  double nearest to the exact quotient, a tie going to the even mantissa, and the
  division raises \<^verbatim>\<open>OverflowError\<close> when that double would be \<open>2 ^ 1024\<close> or more.
  \<open>round_half_even a b\<close> is the integer nearest to \<open>a / b\<close> for a positive \<open>b\<close>.
\<close>

definition round_half_even :: "int \<Rightarrow> int \<Rightarrow> int" where
  "round_half_even a b =
     (let q = a div b; r = a mod b
      in if 2 * r < b then q
         else if b < 2 * r then q + 1
         else if even q then q else q + 1)"

function bit_length :: "nat \<Rightarrow> nat" where
  "bit_length n = (if n = 0 then 0 else Suc (bit_length (n div 2)))"
  by pat_completeness auto
termination
  by (relation "measure id") auto

declare bit_length.simps [simp del]

text \<open>
  The exponent \<open>e\<close> of the quotient \<open>t / 10\<close> of a positive \<open>t\<close>: the integer with
  \<open>2 ^ e \<le> t / 10 < 2 ^ (e + 1)\<close>. It is at least \<open>- 4\<close>, as the quotient is at least
  a tenth.
\<close>

definition quotient_exponent :: "int \<Rightarrow> int" where
  "quotient_exponent t =
     (if 10 \<le> t then int (bit_length (nat (t div 10))) - 1
      else if 10 \<le> 2 * t then - 1
      else if 10 \<le> 4 * t then - 2
      else if 10 \<le> 8 * t then - 3
      else - 4)"

text \<open>
  The double nearest to \<open>t / 10\<close> for a positive \<open>t\<close>, as a pair \<open>(m, p)\<close> that stands for
  \<open>m * 2 ^ p\<close>: the mantissa \<open>m\<close> has 53 bits, so the unit \<open>2 ^ p\<close> of the last place has
  the exponent \<open>p = e - 52\<close>.
\<close>

definition nearest_double_div10 :: "int \<Rightarrow> int \<times> int" where
  "nearest_double_div10 t =
     (let p = quotient_exponent t - 52
      in (if p \<le> 0 then round_half_even (t * 2 ^ nat (- p)) 10
          else round_half_even t (10 * 2 ^ nat p), p))"

text \<open>
  \<^verbatim>\<open>math.ceil(total_to_request / 10)\<close>: the ceiling of that double, which for a
  negative total is the negated floor of the double of the absolute value.
\<close>

definition num_chunks_of :: "int \<Rightarrow> error + int" where
  "num_chunks_of total_to_request =
     (if total_to_request = 0 then Inr 0
      else (let (m, p) = nearest_double_div10 \<bar>total_to_request\<bar>
            in if 0 \<le> p \<and> 2 ^ 1024 \<le> m * 2 ^ nat p then Inl OverflowError
               else if 0 < total_to_request
               then Inr (if 0 \<le> p then m * 2 ^ nat p else - ((- m) div 2 ^ nat (- p)))
               else Inr (if 0 \<le> p then - (m * 2 ^ nat p) else - (m div 2 ^ nat (- p)))))"

subsection \<open>Chunks and tasks\<close>

text \<open>The counts of the chunks of one difficulty, for \<^verbatim>\<open>i\<close> in \<^verbatim>\<open>range(num_chunks)\<close>.\<close>

definition chunk_list :: "int \<Rightarrow> int \<Rightarrow> int list" where
  "chunk_list num_chunks total_to_request =
     map (\<lambda>i. if i < num_chunks - 1 then 10
               else total_to_request - 10 * (num_chunks - 1))
       [0 .. num_chunks - 1]"

definition chunk_counts :: "int \<Rightarrow> error + int list" where
  "chunk_counts total_to_request =
     (case num_chunks_of total_to_request of
        Inl e \<Rightarrow> Inl e
      | Inr num_chunks \<Rightarrow> Inr (chunk_list num_chunks total_to_request))"

text \<open>
  The first loop of \<^verbatim>\<open>process_prompt\<close>: for each difficulty in turn the chunk counts
  are computed and one task per chunk is appended. With no difficulty nothing is
  computed.
\<close>

fun make_tasks :: "pystr list \<Rightarrow> int \<Rightarrow> error + (pystr \<times> int) list" where
  "make_tasks [] num_variants = Inr []"
| "make_tasks (difficulty # rest) num_variants =
     (case chunk_counts (num_variants * buffer_multiplier) of
        Inl e \<Rightarrow> Inl e
      | Inr counts \<Rightarrow>
          (case make_tasks rest num_variants of
             Inl e \<Rightarrow> Inl e
           | Inr tasks \<Rightarrow> Inr (map (\<lambda>count. (difficulty, count)) counts @ tasks)))"

text \<open>
  \<^verbatim>\<open>asyncio.gather\<close> over the chunk coroutines: every chunk is started, in submission
  order, and the outcomes are joined by position; one failed chunk fails the join.
\<close>

fun run_chunks ::
  "env \<Rightarrow> world \<Rightarrow> pystr \<Rightarrow> (pystr \<times> int) list \<Rightarrow> (error + variant_record list) list \<times> world" where
  "run_chunks env w base_prompt [] = ([], w)"
| "run_chunks env w base_prompt ((difficulty, count) # tasks) =
     (let (r, w1) = generate_variant_chunk env w base_prompt difficulty count;
          (rs, w2) = run_chunks env w1 base_prompt tasks
      in (r # rs, w2))"

fun gather :: "(error + 'a) list \<Rightarrow> error + 'a list" where
  "gather [] = Inr []"
| "gather (Inl e # rs) = Inl e"
| "gather (Inr v # rs) = (case gather rs of Inl e \<Rightarrow> Inl e | Inr vs \<Rightarrow> Inr (v # vs))"

text \<open>
  The merge loops: \<open>seen_variants\<close> is the set of accepted variant texts and
  \<open>difficulty_dict\<close> the accepted records per difficulty.
\<close>

type_synonym merge_state = "pystr set \<times> (pystr \<rightharpoonup> variant_record list)"

fun merge_chunk :: "pystr \<Rightarrow> variant_record list \<Rightarrow> merge_state \<Rightarrow> error + merge_state" where
  "merge_chunk difficulty [] st = Inr st"
| "merge_chunk difficulty (v # vs) (seen_variants, difficulty_dict) =
     (if variant v \<noteq> [] \<and> variant v \<notin> seen_variants
      then (case difficulty_dict difficulty of
              None \<Rightarrow> Inl KeyError
            | Some accepted \<Rightarrow>
                merge_chunk difficulty vs
                  (insert (variant v) seen_variants,
                   difficulty_dict(difficulty \<mapsto> accepted @ [v])))
      else merge_chunk difficulty vs (seen_variants, difficulty_dict))"

fun merge_all ::
  "(pystr \<times> variant_record list) list \<Rightarrow> merge_state \<Rightarrow> error + merge_state" where
  "merge_all [] st = Inr st"
| "merge_all ((difficulty, chunk) # rest) st =
     (case merge_chunk difficulty chunk st of
        Inl e \<Rightarrow> Inl e
      | Inr st' \<Rightarrow> merge_all rest st')"

text \<open>\<^verbatim>\<open>{d: [] for d in difficulties}\<close>\<close>

definition init_dict :: "pystr list \<Rightarrow> (pystr \<rightharpoonup> variant_record list)" where
  "init_dict difficulties = fold (\<lambda>d m. m(d \<mapsto> [])) difficulties Map.empty"

text \<open>\<^verbatim>\<open>xs[:n]\<close>: a negative bound counts from the end.\<close>

definition slice_to :: "'a list \<Rightarrow> int \<Rightarrow> 'a list" where
  "slice_to xs n = (if 0 \<le> n then take (nat n) xs else take (length xs - nat (- n)) xs)"

fun collect_final ::
  "(pystr \<rightharpoonup> variant_record list) \<Rightarrow> int \<Rightarrow> pystr list \<Rightarrow> error + variant_record list" where
  "collect_final difficulty_dict num_variants [] = Inr []"
| "collect_final difficulty_dict num_variants (difficulty # rest) =
     (case difficulty_dict difficulty of
        None \<Rightarrow> Inl KeyError
      | Some accepted \<Rightarrow>
          (case collect_final difficulty_dict num_variants rest of
             Inl e \<Rightarrow> Inl e
           | Inr others \<Rightarrow> Inr (slice_to accepted num_variants @ others)))"

text \<open>The part of \<^verbatim>\<open>process_prompt\<close> before the recursion.\<close>

definition top_level ::
  "env \<Rightarrow> world \<Rightarrow> pystr \<Rightarrow> pystr list \<Rightarrow> int \<Rightarrow> (error + variant_record list) \<times> world" where
  "top_level env w base_prompt difficulties num_variants =
     (case make_tasks difficulties num_variants of
        Inl e \<Rightarrow> (Inl e, w)
      | Inr tasks \<Rightarrow>
     (let (results, w1) = run_chunks env w base_prompt tasks
      in case gather results of
           Inl e \<Rightarrow> (Inl e, w1)
         | Inr chunk_results \<Rightarrow>
             (case merge_all (zip (map fst tasks) chunk_results)
                     ({}, init_dict difficulties) of
                Inl e \<Rightarrow> (Inl e, w1)
              | Inr (seen_variants, difficulty_dict) \<Rightarrow>
                  (collect_final difficulty_dict num_variants difficulties, w1))))"

text \<open>
  \<^verbatim>\<open>process_prompt\<close>, and the loop over the top-level results that calls it again with
  the depth \<open>sub_depth = recursion_depth - 1\<close>. The loop awaits one sub-run after the
  other, so the first failure ends it.
\<close>

function process_prompt ::
    "env \<Rightarrow> world \<Rightarrow> pystr \<Rightarrow> pystr list \<Rightarrow> int \<Rightarrow> int \<Rightarrow> (error + variant_record list) \<times> world"
  and recurse ::
    "env \<Rightarrow> world \<Rightarrow> variant_record list \<Rightarrow> pystr list \<Rightarrow> int \<Rightarrow> int \<Rightarrow>
       (error + variant_record list) \<times> world"
where
  "process_prompt env w base_prompt difficulties num_variants recursion_depth =
     (case top_level env w base_prompt difficulties num_variants of
        (Inl e, w1) \<Rightarrow> (Inl e, w1)
      | (Inr final_results, w1) \<Rightarrow>
          if recursion_depth > 0
          then (case recurse env w1 final_results difficulties num_variants
                       (recursion_depth - 1) of
                  (Inl e, w2) \<Rightarrow> (Inl e, w2)
                | (Inr recursive_results, w2) \<Rightarrow> (Inr (final_results @ recursive_results), w2))
          else (Inr final_results, w1))"
| "recurse env w [] difficulties num_variants sub_depth = (Inr [], w)"
| "recurse env w (v # vs) difficulties num_variants sub_depth =
     (case process_prompt env w (variant v) difficulties num_variants sub_depth of
        (Inl e, w1) \<Rightarrow> (Inl e, w1)
      | (Inr sub_variants, w1) \<Rightarrow>
          (case recurse env w1 vs difficulties num_variants sub_depth of
             (Inl e, w2) \<Rightarrow> (Inl e, w2)
           | (Inr others, w2) \<Rightarrow> (Inr (sub_variants @ others), w2)))"
  by pat_completeness auto
termination
  by (relation "measures
        [\<lambda>x. case x of
                Inl (env, w, base_prompt, difficulties, num_variants, depth) \<Rightarrow> 3 * nat depth
              | Inr (env, w, vs, difficulties, num_variants, sub_depth) \<Rightarrow> 3 * nat sub_depth + 2,
         \<lambda>x. case x of
                Inl (env, w, base_prompt, difficulties, num_variants, depth) \<Rightarrow> 0
              | Inr (env, w, vs, difficulties, num_variants, sub_depth) \<Rightarrow> length vs]")
     auto

declare process_prompt.simps [simp del]

section \<open>Service failures during a run\<close>

text \<open>
  The calls of the service made between two states are those numbered from the call
  position of the first state up to that of the second. \<open>fails_as_service env other w res\<close>
  says of an outcome \<open>res\<close> reached from \<open>w\<close>: a failed call in between makes the outcome
  a failure, and a failure of the outcome is the failure of a call in between or one of
  the failures \<open>other\<close>.
\<close>

definition fails_as_service ::
  "env \<Rightarrow> error set \<Rightarrow> world \<Rightarrow> (error + 'a) \<times> world \<Rightarrow> bool" where
  "fails_as_service env other w res \<longleftrightarrow>
     call_pos w \<le> call_pos (snd res) \<and>
     ((\<exists>k e. call_pos w \<le> k \<and> k < call_pos (snd res) \<and> reply_tape env k = Inl e)
        \<longrightarrow> (\<exists>e. fst res = Inl e)) \<and>
     (\<forall>e. fst res = Inl e \<longrightarrow>
        (\<exists>k. call_pos w \<le> k \<and> k < call_pos (snd res) \<and> reply_tape env k = Inl e) \<or>
        e \<in> other)"

section \<open>The merge as the specification words it\<close>

text \<open>
  \<open>first_by f xs\<close> keeps, in order, the first element of \<open>xs\<close> for each value of \<open>f\<close>.
  \<open>spec_top_level\<close> is the merge step as the specification describes it: of all records
  of all chunks, in submission order, the first occurrence of each variant text is kept
  (one set for the whole call, across difficulties), and each difficulty keeps the first
  \<open>desired_count\<close> of its survivors.
\<close>

fun first_by :: "('a \<Rightarrow> 'k) \<Rightarrow> 'a list \<Rightarrow> 'a list" where
  "first_by f [] = []"
| "first_by f (x # xs) = x # first_by f (filter (\<lambda>y. f y \<noteq> f x) xs)"

definition spec_top_level ::
  "variant_record list list \<Rightarrow> pystr list \<Rightarrow> int \<Rightarrow> variant_record list" where
  "spec_top_level chunk_outputs difficulties desired_count =
     concat (map (\<lambda>d. take (nat desired_count)
                        (filter (\<lambda>r. requested_difficulty r = d)
                           (first_by variant (concat chunk_outputs))))
               difficulties)"

section \<open>Example environments\<close>

text \<open>Concrete tapes and a start state, for running the model on examples.\<close>

definition example_clock :: "nat \<Rightarrow> datetime" where
  "example_clock k = \<lparr>dt_year = 2025, dt_month = 1, dt_day = 2, dt_hour = 3, dt_minute = 4,
                       dt_second = 5, dt_microsecond = 6 + k\<rparr>"

definition example_env :: "(nat \<Rightarrow> nat) \<Rightarrow> (nat \<Rightarrow> error + pystr) \<Rightarrow> env" where
  "example_env draws replies =
     \<lparr>random_tape = draws, reply_tape = replies, clock_tape = example_clock,
      unicode_lower = (\<lambda>s. s)\<rparr>"

definition start :: world where
  "start = \<lparr>rand_pos = 0, call_pos = 0, clock_pos = 0\<rparr>"

definition one_variant_reply :: pystr where
  "one_variant_reply =
     str ''====\<newline>Variant 1:\<newline>Reasoning: foo\<newline>Variant: bar\<newline>====''"

text \<open>
  The record built from that reply for the difficulty \<^verbatim>\<open>easier\<close> when every random
  draw is 0: three hints are drawn from the pool of four.
\<close>

definition example_record :: "pystr \<Rightarrow> pystr \<Rightarrow> variant_record" where
  "example_record original_prompt stamp =
     \<lparr>original = original_prompt,
      requested_difficulty = str ''easier'',
      variant = str ''bar'',
      reasoning = Some (str ''foo''),
      transformations_used =
        [str ''simplify the language'', str ''simplify the instructions'',
         str ''remove unnecessary details''],
      evaluation = None,
      timestamp = stamp\<rparr>"

text \<open>
  Two replies that share the variant text \<^verbatim>\<open>A\<close>, and the service that gives the first to
  every even call and the second to every odd one.
\<close>

definition reply_a_b :: pystr where
  "reply_a_b =
     str ''====\<newline>Reasoning: r1\<newline>Variant: A\<newline>====\<newline>Reasoning: r2\<newline>Variant: B\<newline>====''"

definition reply_a_c :: pystr where
  "reply_a_c =
     str ''====\<newline>Reasoning: r3\<newline>Variant: A\<newline>====\<newline>Reasoning: r4\<newline>Variant: C\<newline>====''"

definition alternating_replies :: "nat \<Rightarrow> error + pystr" where
  "alternating_replies k = (if even k then Inr reply_a_b else Inr reply_a_c)"

text \<open>
  The records that the chunks of the difficulties \<^verbatim>\<open>harder\<close> and \<^verbatim>\<open>easier\<close> build from
  these replies for the prompt \<^verbatim>\<open>p\<close> when every random draw is 0.
\<close>

definition harder_record :: "pystr \<Rightarrow> pystr \<Rightarrow> pystr \<Rightarrow> variant_record" where
  "harder_record variant_text reasoning_text stamp =
     \<lparr>original = str ''p'',
      requested_difficulty = str ''harder'',
      variant = variant_text,
      reasoning = Some reasoning_text,
      transformations_used =
        [str ''add additional details'', str ''add challenging constraints'',
         str ''expand the prompt''],
      evaluation = None,
      timestamp = stamp\<rparr>"

definition easier_record :: "pystr \<Rightarrow> pystr \<Rightarrow> pystr \<Rightarrow> variant_record" where
  "easier_record variant_text reasoning_text stamp =
     \<lparr>original = str ''p'',
      requested_difficulty = str ''easier'',
      variant = variant_text,
      reasoning = Some reasoning_text,
      transformations_used =
        [str ''simplify the language'', str ''simplify the instructions'',
         str ''remove unnecessary details''],
      evaluation = None,
      timestamp = stamp\<rparr>"

definition harder_a :: variant_record where
  "harder_a = harder_record (str ''A'') (str ''r1'') (str ''2025-01-02T03:04:05.000006Z'')"

definition harder_b :: variant_record where
  "harder_b = harder_record (str ''B'') (str ''r2'') (str ''2025-01-02T03:04:05.000007Z'')"

definition easier_a :: variant_record where
  "easier_a = easier_record (str ''A'') (str ''r3'') (str ''2025-01-02T03:04:05.000008Z'')"

definition easier_c :: variant_record where
  "easier_c = easier_record (str ''C'') (str ''r4'') (str ''2025-01-02T03:04:05.000009Z'')"

section \<open>Properties of the response parser\<close>

lemmas parser_eval_defs =
  str_def parse_variants_def parse_block_def re_split_def splitlines_def strip_def
  DELIMITER_def VARIANT_MARK_def REASONING_MARK_def is_space_def is_linebreak_def

subsection \<open>Auxiliary facts\<close>

lemma VARIANT_MARK_eval: "VARIANT_MARK = [86, 97, 114, 105, 97, 110, 116, 58]"
  by (simp add: VARIANT_MARK_def str_def)

lemma REASONING_MARK_eval: "REASONING_MARK = [82, 101, 97, 115, 111, 110, 105, 110, 103, 58]"
  by (simp add: REASONING_MARK_def str_def)

lemma length_VARIANT_MARK: "length VARIANT_MARK = 8"
  by (simp add: VARIANT_MARK_eval)

lemma length_REASONING_MARK: "length REASONING_MARK = 10"
  by (simp add: REASONING_MARK_eval)

lemma set_strip: "set (strip s) \<subseteq> set s"
proof -
  have "set (strip s) \<subseteq> set (dropWhile is_space s)"
    unfolding strip_def using set_dropWhileD by fastforce
  also have "\<dots> \<subseteq> set s"
    using set_dropWhileD by fastforce
  finally show ?thesis .
qed

lemma last_dropWhile_keep: "dropWhile P xs \<noteq> [] \<Longrightarrow> last (dropWhile P xs) = last xs"
  by (induction xs) (auto split: if_splits)

lemma dropWhile_rev_nonempty: "dropWhile P (rev xs) \<noteq> [] \<Longrightarrow> xs \<noteq> []"
  by auto

lemma strip_ends:
  assumes "strip s \<noteq> []"
  shows "\<not> is_space (hd (strip s))" and "\<not> is_space (last (strip s))"
proof -
  let ?a = "dropWhile is_space s"
  let ?b = "dropWhile is_space (rev ?a)"
  from assms have b: "?b \<noteq> []" by (simp add: strip_def)
  have a: "?a \<noteq> []" using b by (rule dropWhile_rev_nonempty)
  have "last (strip s) = hd ?b" using b by (simp add: strip_def last_rev)
  with hd_dropWhile[OF b] show "\<not> is_space (last (strip s))" by simp
  have "hd (strip s) = last ?b" using b by (simp add: strip_def hd_rev)
  also have "\<dots> = last (rev ?a)" using b by (rule last_dropWhile_keep)
  also have "\<dots> = hd ?a" using a by (simp add: last_rev)
  finally show "\<not> is_space (hd (strip s))" using hd_dropWhile[OF a] by simp
qed

lemma splitlines_from_no_break:
  "\<forall>c \<in> set acc. \<not> is_linebreak c \<Longrightarrow> l \<in> set (splitlines_from acc s) \<Longrightarrow> c \<in> set l
     \<Longrightarrow> \<not> is_linebreak c"
proof (induction acc s arbitrary: l rule: splitlines_from.induct)
  case (1 acc)
  then show ?case by (auto split: if_splits)
next
  case (2 acc c' cs)
  then show ?case by (auto split: if_splits)
qed

lemma splitlines_no_break:
  "l \<in> set (splitlines s) \<Longrightarrow> c \<in> set l \<Longrightarrow> \<not> is_linebreak c"
  unfolding splitlines_def by (rule splitlines_from_no_break[of "[]"]) auto

lemma first_variant_line_find:
  "first_variant_line ls =
     map_option (\<lambda>line. strip (drop 8 (strip line)))
       (find (\<lambda>l. startswith (strip l) VARIANT_MARK) ls)"
  by (induction ls) (auto simp: length_VARIANT_MARK)

lemma parse_block_length:
  "length (parse_block block) =
     (if contains VARIANT_MARK block \<and> contains REASONING_MARK block \<and>
         (\<exists>line. find (\<lambda>l. startswith (strip l) VARIANT_MARK) (splitlines block) = Some line \<and>
                 strip (drop 8 (strip line)) \<noteq> [])
      then 1 else 0)"
  by (auto simp: parse_block_def first_variant_line_find Let_def split: option.splits)

lemma startswith_append: "startswith s m \<longleftrightarrow> (\<exists>post. s = m @ post)"
  by (induction s m rule: startswith.induct) auto

lemma contains_iff: "contains m s \<longleftrightarrow> (\<exists>pre post. s = pre @ m @ post)"
proof (induction s)
  case Nil
  then show ?case by auto
next
  case (Cons c cs)
  show ?case
  proof
    assume "contains m (c # cs)"
    then consider "startswith (c # cs) m" | "contains m cs" by auto
    then show "\<exists>pre post. c # cs = pre @ m @ post"
    proof cases
      case 1
      then obtain post where "c # cs = m @ post" by (auto simp: startswith_append)
      then have "c # cs = [] @ m @ post" by simp
      then show ?thesis by blast
    next
      case 2
      then obtain pre post where "cs = pre @ m @ post" using Cons.IH by auto
      then have "c # cs = (c # pre) @ m @ post" by simp
      then show ?thesis by blast
    qed
  next
    assume "\<exists>pre post. c # cs = pre @ m @ post"
    then obtain pre post where e: "c # cs = pre @ m @ post" by auto
    show "contains m (c # cs)"
    proof (cases pre)
      case Nil
      with e have "startswith (c # cs) m" by (auto simp: startswith_append)
      then show ?thesis by simp
    next
      case (Cons p pre')
      with e have "cs = pre' @ m @ post" by simp
      then have "contains m cs" using Cons.IH by blast
      then show ?thesis by simp
    qed
  qed
qed

lemma ws_then_variant_contains: "ws_then_variant s \<Longrightarrow> contains VARIANT_MARK s"
  by (induction s) (auto simp: VARIANT_MARK_eval)

lemma lazy_group_contains: "lazy_group acc s = Some g \<Longrightarrow> contains VARIANT_MARK s"
  by (induction acc s rule: lazy_group.induct)
     (auto simp: VARIANT_MARK_eval split: if_splits dest: ws_then_variant_contains)

lemma after_reasoning_contains: "after_reasoning s = Some g \<Longrightarrow> contains VARIANT_MARK s"
proof (induction s)
  case Nil
  then have "lazy_group [] [] = Some g" by (simp del: lazy_group.simps)
  then show ?case by (rule lazy_group_contains)
next
  case (Cons c cs)
  show ?case
  proof (cases "is_space c \<and> after_reasoning cs \<noteq> None")
    case True
    with Cons.prems have "after_reasoning cs = Some g"
      by (auto simp del: lazy_group.simps)
    then have "contains VARIANT_MARK cs" by (rule Cons.IH)
    then show ?thesis by simp
  next
    case False
    with Cons.prems have "lazy_group [] (c # cs) = Some g"
      by (auto simp del: lazy_group.simps split: option.splits)
    then show ?thesis by (rule lazy_group_contains)
  qed
qed

lemma re_search_reasoning_occurrence:
  "re_search_reasoning b = Some g \<Longrightarrow>
     \<exists>pre post. b = pre @ REASONING_MARK @ post \<and> contains VARIANT_MARK post"
proof (induction b)
  case Nil
  then show ?case by simp
next
  case (Cons c cs)
  show ?case
  proof (cases "startswith (c # cs) REASONING_MARK \<and> after_reasoning (drop 10 (c # cs)) \<noteq> None")
    case True
    then obtain post where p: "c # cs = REASONING_MARK @ post"
      by (auto simp: startswith_append)
    then have "drop 10 (c # cs) = post" by (simp add: REASONING_MARK_eval)
    with True have "contains VARIANT_MARK post"
      by (auto dest: after_reasoning_contains)
    with p have "c # cs = [] @ REASONING_MARK @ post \<and> contains VARIANT_MARK post" by simp
    then show ?thesis by blast
  next
    case False
    with Cons.prems have "re_search_reasoning cs = Some g"
      by (auto split: if_splits option.splits)
    then obtain pre post where "cs = pre @ REASONING_MARK @ post \<and> contains VARIANT_MARK post"
      using Cons.IH by blast
    then have "c # cs = (c # pre) @ REASONING_MARK @ post \<and> contains VARIANT_MARK post" by simp
    then show ?thesis by blast
  qed
qed

lemma contains_suffix: "contains m s \<Longrightarrow> contains m (xs @ s)"
  by (induction xs) auto

lemma re_search_reasoning_none:
  assumes b: "block = pre @ REASONING_MARK @ post"
    and first: "\<not> contains REASONING_MARK (pre @ butlast REASONING_MARK)"
    and none: "\<not> contains VARIANT_MARK post"
  shows "re_search_reasoning block = None"
proof (rule ccontr)
  assume "re_search_reasoning block \<noteq> None"
  then obtain g where "re_search_reasoning block = Some g" by auto
  then obtain pre' post' where
    b': "block = pre' @ REASONING_MARK @ post'" and v: "contains VARIANT_MARK post'"
    using re_search_reasoning_occurrence by blast
  show False
  proof (cases "length pre' < length pre")
    case True
    from b b' have e: "pre @ REASONING_MARK @ post = pre' @ REASONING_MARK @ post'" by simp
    have "take (length pre + 9) (pre @ REASONING_MARK @ post) = pre @ butlast REASONING_MARK"
      by (simp add: length_REASONING_MARK butlast_conv_take)
    moreover have "take (length pre + 9) (pre' @ REASONING_MARK @ post')
        = pre' @ REASONING_MARK @ take (length pre + 9 - length pre' - 10) post'"
      using True by (simp add: length_REASONING_MARK butlast_conv_take)
    ultimately have "pre @ butlast REASONING_MARK
        = pre' @ REASONING_MARK @ take (length pre + 9 - length pre' - 10) post'"
      using e by simp
    then have "contains REASONING_MARK (pre @ butlast REASONING_MARK)"
      unfolding contains_iff by blast
    with first show False by simp
  next
    case False
    from b b' have e: "pre @ REASONING_MARK @ post = pre' @ REASONING_MARK @ post'" by simp
    have "drop (length pre' + 10) (pre' @ REASONING_MARK @ post') = post'"
      by (simp add: length_REASONING_MARK butlast_conv_take)
    moreover have "drop (length pre' + 10) (pre @ REASONING_MARK @ post)
        = drop (length pre' - length pre) post"
      using False by (simp add: length_REASONING_MARK butlast_conv_take)
    ultimately have "post' = drop (length pre' - length pre) post" using e by simp
    then have "post = take (length pre' - length pre) post @ post'"
      by simp
    then have "contains VARIANT_MARK post"
      using contains_suffix[OF v] by metis
    with none show False by simp
  qed
qed

lemma parse_block_member:
  assumes "p \<in> set (parse_block block)"
  shows "parse_block block = [p] \<and>
    (\<exists>line. find (\<lambda>l. startswith (strip l) VARIANT_MARK) (splitlines block) = Some line \<and>
       vd_variant p = Some (strip (drop (length VARIANT_MARK) (strip line))) \<and>
       strip (drop (length VARIANT_MARK) (strip line)) \<noteq> []) \<and>
    vd_reasoning p =
      Some (case re_search_reasoning block of Some g \<Rightarrow> strip g | None \<Rightarrow> [])"
proof (cases "find (\<lambda>l. startswith (strip l) VARIANT_MARK) (splitlines block)")
  case None
  with assms show ?thesis
    by (simp add: parse_block_def first_variant_line_find split: if_splits)
next
  case (Some line)
  with assms show ?thesis
    by (simp add: parse_block_def first_variant_line_find length_VARIANT_MARK Let_def
        split: if_splits option.splits)
qed

subsection \<open>The claims about the parser\<close>

text \<open>
  Claim C4. Parsing the text \<^verbatim>\<open>"====\nVariant 1:\nReasoning: foo\nVariant: bar\n===="\<close>
  returns exactly one pair, with reasoning \<^verbatim>\<open>foo\<close> and variant \<^verbatim>\<open>bar\<close>.
\<close>

theorem parse_variants_example:
  "parse_variants
     (str ''====\<newline>Variant 1:\<newline>Reasoning: foo\<newline>Variant: bar\<newline>===='')
   = [\<lparr>vd_reasoning = Some (str ''foo''), vd_variant = Some (str ''bar''),
        vd_transformations_used = None\<rparr>]"
  by (simp add: parser_eval_defs)

text \<open>
  Claim C3, as stated: every delimited block with both markers yields exactly one pair.
  This fails: a block with both markers on one line has no line that starts with the
  variant marker, and yields nothing.
\<close>

theorem parse_variants_both_markers_counterexample:
  "re_split (str ''====\<newline>Reasoning: a Variant: b\<newline>===='')
     = [[], str ''Reasoning: a Variant: b\<newline>'', []] \<and>
   contains VARIANT_MARK (str ''Reasoning: a Variant: b\<newline>'') \<and>
   contains REASONING_MARK (str ''Reasoning: a Variant: b\<newline>'') \<and>
   parse_block (str ''Reasoning: a Variant: b\<newline>'') = [] \<and>
   parse_variants (str ''====\<newline>Reasoning: a Variant: b\<newline>===='') = []"
  by (simp add: parser_eval_defs)

text \<open>
  Claim C3, amended. The output is the concatenation of what the blocks yield, in order.
  A block yields exactly one pair if it contains both markers, has a line whose stripped
  text starts with the variant marker, and the first such line has text left after the
  marker; every other block, in particular every block missing a marker, yields no pair.
\<close>

theorem parse_block_pair_count:
  "parse_variants text = concat (map parse_block (re_split text)) \<and>
   length (parse_block block) =
     (if contains VARIANT_MARK block \<and> contains REASONING_MARK block \<and>
         (\<exists>line. find (\<lambda>l. startswith (strip l) VARIANT_MARK) (splitlines block) = Some line \<and>
                 strip (drop (length VARIANT_MARK) (strip line)) \<noteq> [])
      then 1 else 0)"
  by (simp add: parse_variants_def parse_block_length length_VARIANT_MARK)

theorem parse_block_pair_count_witness:
  "length (parse_block (str ''Reasoning: foo\<newline>  Variant: bar\<newline>'')) = 1 \<and>
   length (parse_block (str ''Reasoning: foo\<newline>Variant:\<newline>'')) = 0 \<and>
   length (parse_block (str ''Reasoning: foo Variant: bar'')) = 0 \<and>
   length (parse_block (str ''Variant: bar'')) = 0"
  using parse_block_pair_count [of "[]" "str ''Reasoning: foo\<newline>  Variant: bar\<newline>''"]
    parse_block_pair_count [of "[]" "str ''Reasoning: foo\<newline>Variant:\<newline>''"]
    parse_block_pair_count [of "[]" "str ''Reasoning: foo Variant: bar''"]
    parse_block_pair_count [of "[]" "str ''Variant: bar''"]
  by (simp add: parser_eval_defs)

text \<open>
  Claim C10. Every pair the parser returns comes from one block; its variant text is the
  stripped rest of the first line of that block whose stripped text starts with the
  variant marker; it is not empty, holds no newline (no line boundary at all) and has no
  whitespace at either end. Its reasoning text is empty whenever no variant marker
  occurs behind the first occurrence of the reasoning marker in the block.
\<close>

theorem parse_variants_pair_shape:
  assumes "p \<in> set (parse_variants text)"
  shows "\<exists>block \<in> set (re_split text). \<exists>line v r.
     parse_block block = [p] \<and> vd_variant p = Some v \<and> vd_reasoning p = Some r \<and>
     find (\<lambda>l. startswith (strip l) VARIANT_MARK) (splitlines block) = Some line \<and>
     v = strip (drop (length VARIANT_MARK) (strip line)) \<and>
     v \<noteq> [] \<and> 10 \<notin> set v \<and> (\<forall>c \<in> set v. \<not> is_linebreak c) \<and>
     \<not> is_space (hd v) \<and> \<not> is_space (last v) \<and>
     (block = pre @ REASONING_MARK @ post \<and>
      \<not> contains REASONING_MARK (pre @ butlast REASONING_MARK) \<and>
      \<not> contains VARIANT_MARK post \<longrightarrow> r = [])"
proof -
  from assms obtain block where blk: "block \<in> set (re_split text)"
    and mem: "p \<in> set (parse_block block)"
    by (auto simp: parse_variants_def)
  from parse_block_member[OF mem] obtain line where
    one: "parse_block block = [p]" and
    fnd: "find (\<lambda>l. startswith (strip l) VARIANT_MARK) (splitlines block) = Some line" and
    var: "vd_variant p = Some (strip (drop (length VARIANT_MARK) (strip line)))" and
    ne: "strip (drop (length VARIANT_MARK) (strip line)) \<noteq> []" and
    rea: "vd_reasoning p =
      Some (case re_search_reasoning block of Some g \<Rightarrow> strip g | None \<Rightarrow> [])"
    by blast
  let ?v = "strip (drop (length VARIANT_MARK) (strip line))"
  let ?r = "case re_search_reasoning block of Some g \<Rightarrow> strip g | None \<Rightarrow> []"
  from fnd have line: "line \<in> set (splitlines block)"
    by (auto simp: find_Some_iff)
  have sub: "set ?v \<subseteq> set line"
    using set_strip[of "drop (length VARIANT_MARK) (strip line)"]
      set_drop_subset[of "length VARIANT_MARK" "strip line"] set_strip[of line]
    by blast
  have nobreak: "\<forall>c \<in> set ?v. \<not> is_linebreak c"
    using sub splitlines_no_break[OF line] by blast
  have "is_linebreak 10" by (simp add: is_linebreak_def)
  with nobreak have no10: "10 \<notin> set ?v" by blast
  have empty: "?r = []" if "block = pre @ REASONING_MARK @ post"
      "\<not> contains REASONING_MARK (pre @ butlast REASONING_MARK)"
      "\<not> contains VARIANT_MARK post"
    using re_search_reasoning_none[OF that] by simp
  show ?thesis
    using blk one var rea fnd ne no10 nobreak strip_ends[OF ne] empty
    by (intro bexI[of _ block] exI[of _ line] exI[of _ ?v] exI[of _ ?r]) auto
qed

theorem parse_variants_pair_shape_witness:
  "\<lparr>vd_reasoning = Some [], vd_variant = Some (str ''x''), vd_transformations_used = None\<rparr>
     \<in> set (parse_variants (str ''Variant: x\<newline>Reasoning: y'')) \<and>
   str ''Variant: x\<newline>Reasoning: y'' = str ''Variant: x\<newline>'' @ REASONING_MARK @ str '' y'' \<and>
   \<not> contains REASONING_MARK (str ''Variant: x\<newline>'' @ butlast REASONING_MARK) \<and>
   \<not> contains VARIANT_MARK (str '' y'')"
proof -
  let ?p = "\<lparr>vd_reasoning = Some [], vd_variant = Some (str ''x''), vd_transformations_used = None\<rparr>"
  let ?text = "str ''Variant: x\<newline>Reasoning: y''"
  have mem: "?p \<in> set (parse_variants ?text)"
    by (simp add: parser_eval_defs)
  note parse_variants_pair_shape [OF mem, of "str ''Variant: x\<newline>''" "str '' y''"]
  then show ?thesis using mem by (simp add: parser_eval_defs)
qed

section \<open>Properties of the record builder and the chunk generator\<close>

subsection \<open>Auxiliary facts\<close>

lemma random_choice_nonempty:
  "xs \<noteq> [] \<Longrightarrow> random_choice env w xs =
     (Inr (xs ! (random_tape env (rand_pos w) mod length xs)), w\<lparr>rand_pos := Suc (rand_pos w)\<rparr>)"
  by (simp add: random_choice_def randbelow_def)

lemma sample_loop_world:
  "snd (sample_loop env w pool k) = w\<lparr>rand_pos := rand_pos w + k\<rparr>"
  by (induction k arbitrary: w pool) (simp_all add: randbelow_def split_beta)

lemma set_butlast_update: "set (butlast (xs[j := last xs])) \<subseteq> set xs"
proof (cases xs)
  case Nil
  then show ?thesis by simp
next
  case (Cons a as)
  have "set (butlast (xs[j := last xs])) \<subseteq> set (xs[j := last xs])"
    by (auto dest: in_set_butlastD)
  also have "\<dots> \<subseteq> insert (last xs) (set xs)" by (rule set_update_subset_insert)
  also have "\<dots> \<subseteq> set xs" using Cons by auto
  finally show ?thesis .
qed

lemma sample_loop_result:
  "k \<le> length pool \<Longrightarrow>
     length (fst (sample_loop env w pool k)) = k \<and> set (fst (sample_loop env w pool k)) \<subseteq> set pool"
proof (induction k arbitrary: w pool)
  case 0
  then show ?case by simp
next
  case (Suc k)
  let ?j = "random_tape env (rand_pos w) mod length pool"
  let ?w1 = "w\<lparr>rand_pos := Suc (rand_pos w)\<rparr>"
  let ?pool' = "butlast (pool[?j := last pool])"
  from Suc.prems have "0 < length pool" by (cases pool) simp_all
  then have j: "?j < length pool" by simp
  have "k \<le> length ?pool'" using Suc.prems by simp
  from Suc.IH[OF this, of ?w1] have
    ih: "length (fst (sample_loop env ?w1 ?pool' k)) = k"
        "set (fst (sample_loop env ?w1 ?pool' k)) \<subseteq> set ?pool'" by auto
  have "fst (sample_loop env w pool (Suc k)) = pool ! ?j # fst (sample_loop env ?w1 ?pool' k)"
    by (simp add: randbelow_def split_beta)
  then show ?case using ih j set_butlast_update[of pool ?j] by auto
qed

lemma random_sample_ok:
  assumes "k \<le> length pool"
  shows "\<exists>chosen. random_sample env w pool k = (Inr chosen, w\<lparr>rand_pos := rand_pos w + k\<rparr>) \<and>
           length chosen = k \<and> set chosen \<subseteq> set pool"
proof -
  have "random_sample env w pool k =
      (Inr (fst (sample_loop env w pool k)), snd (sample_loop env w pool k))"
    using assms by (simp add: random_sample_def split_beta)
  then show ?thesis using sample_loop_result[OF assms, of env w] sample_loop_world[of env w pool k]
    by simp
qed

lemma choose_transforms_ok:
  "\<exists>chosen. choose_transforms env w difficulty =
       (Inr chosen,
        w\<lparr>rand_pos := Suc (rand_pos w) +
             min (3 + random_tape env (rand_pos w) mod 4) (length (hint_pool env difficulty))\<rparr>) \<and>
     length chosen =
       min (3 + random_tape env (rand_pos w) mod 4) (length (hint_pool env difficulty)) \<and>
     set chosen \<subseteq> set (hint_pool env difficulty)"
proof -
  let ?pool = "hint_pool env difficulty"
  let ?r = "random_tape env (rand_pos w) mod 4"
  let ?w1 = "w\<lparr>rand_pos := Suc (rand_pos w)\<rparr>"
  have nth: "[3, 4, 5, 6 :: nat] ! ?r = 3 + ?r"
  proof -
    have "?r < 4" by simp
    then consider "?r = 0" | "?r = 1" | "?r = 2" | "?r = 3" by linarith
    then show ?thesis by cases simp_all
  qed
  have c: "random_choice env w [3, 4, 5, 6 :: nat] = (Inr (3 + ?r), ?w1)"
    using random_choice_nonempty[of "[3, 4, 5, 6 :: nat]" env w] nth by simp
  have "min (3 + ?r) (length ?pool) \<le> length ?pool" by simp
  from random_sample_ok[OF this, of env ?w1] obtain chosen where
    s: "random_sample env ?w1 ?pool (min (3 + ?r) (length ?pool)) =
          (Inr chosen, ?w1\<lparr>rand_pos := rand_pos ?w1 + min (3 + ?r) (length ?pool)\<rparr>)"
    and l: "length chosen = min (3 + ?r) (length ?pool)" and sub: "set chosen \<subseteq> set ?pool"
    by blast
  have "choose_transforms env w difficulty =
      (Inr chosen, ?w1\<lparr>rand_pos := rand_pos ?w1 + min (3 + ?r) (length ?pool)\<rparr>)"
    unfolding choose_transforms_def Let_def c using s by simp
  then show ?thesis using l sub by simp
qed

lemma process_single_variant_world:
  "call_pos (snd (process_single_variant env w p d vd)) = call_pos w \<and>
   rand_pos (snd (process_single_variant env w p d vd)) = rand_pos w"
  by (simp add: process_single_variant_def utcnow_def split: option.splits)

lemma process_all_world:
  "call_pos (snd (process_all env w p d vds)) = call_pos w \<and>
   rand_pos (snd (process_all env w p d vds)) = rand_pos w"
proof (induction vds arbitrary: w)
  case Nil
  then show ?case by simp
next
  case (Cons vd vds)
  show ?case
    using Cons.IH[of "snd (process_single_variant env w p d vd)"]
      process_single_variant_world[of env w p d vd]
    by (simp add: split_beta)
qed

lemma process_single_variant_record:
  "fst (process_single_variant env w p d vd) = Some r \<Longrightarrow>
     original r = p \<and> requested_difficulty r = d \<and> variant r \<noteq> [] \<and>
     vd_variant vd = Some (variant r) \<and> reasoning r = vd_reasoning vd \<and>
     transformations_used r = (case vd_transformations_used vd of None \<Rightarrow> [] | Some ts \<Rightarrow> ts) \<and>
     evaluation r = None"
  by (auto simp: process_single_variant_def utcnow_def split: option.splits if_splits)

lemma process_all_records:
  "r \<in> set (List.map_filter id (fst (process_all env w p d vds))) \<Longrightarrow>
     original r = p \<and> requested_difficulty r = d \<and> variant r \<noteq> [] \<and> evaluation r = None \<and>
     (\<exists>vd \<in> set vds. vd_variant vd = Some (variant r) \<and> reasoning r = vd_reasoning vd \<and>
        transformations_used r =
          (case vd_transformations_used vd of None \<Rightarrow> [] | Some ts \<Rightarrow> ts))"
proof (induction vds arbitrary: w)
  case Nil
  then show ?case by (simp add: map_filter_simps)
next
  case (Cons vd vds)
  let ?w1 = "snd (process_single_variant env w p d vd)"
  from Cons.prems consider "fst (process_single_variant env w p d vd) = Some r"
    | "r \<in> set (List.map_filter id (fst (process_all env ?w1 p d vds)))"
    by (auto simp: split_beta map_filter_simps id_def split: option.splits)
  then show ?case
  proof cases
    case 1
    from process_single_variant_record[OF this] show ?thesis by simp
  next
    case 2
    from Cons.IH[OF this] show ?thesis by auto
  qed
qed

lemma generate_variant_chunk_eq:
  "\<exists>chosen w5. fst (choose_transforms env w difficulty) = Inr chosen \<and>
     call_pos w5 = Suc (call_pos w) \<and>
     generate_variant_chunk env w prompt difficulty count =
       (case reply_tape env (call_pos w) of
          Inl e \<Rightarrow> (Inl e, w5)
        | Inr response_text \<Rightarrow>
            (Inr (List.map_filter id (fst (process_all env w5 prompt difficulty
                    (map (\<lambda>v. v\<lparr>vd_transformations_used := Some chosen\<rparr>)
                       (parse_variants response_text))))),
             snd (process_all env w5 prompt difficulty
                    (map (\<lambda>v. v\<lparr>vd_transformations_used := Some chosen\<rparr>)
                       (parse_variants response_text)))))"
proof -
  from choose_transforms_ok[of env w difficulty] obtain chosen w2 where
    c: "choose_transforms env w difficulty = (Inr chosen, w2)" and w2: "call_pos w2 = call_pos w"
    by auto
  let ?opts = "template_options prompt difficulty count (join (str '', '') chosen)
                 (join (str '', '') PERSONAS)"
  have "?opts \<noteq> []" by (simp add: template_options_def)
  from random_choice_nonempty[OF this, of env w2] obtain pv w3 where
    t: "get_random_prompt_template env w2 prompt difficulty count (join (str '', '') chosen)
          (join (str '', '') PERSONAS) = (Inr pv, w3)" and w3: "call_pos w3 = call_pos w2"
    by (simp add: get_random_prompt_template_def)
  from random_choice_nonempty[of "[0.8, 1.0, 1.2, 1.4 :: real]" env w3] obtain tc w4 where
    tmp: "random_choice env w3 [0.8, 1.0, 1.2, 1.4 :: real] = (Inr tc, w4)"
    and w4: "call_pos w4 = call_pos w3"
    by simp
  let ?w5 = "w4\<lparr>call_pos := Suc (call_pos w4)\<rparr>"
  have g: "generate_text env w4 MODEL pv tc = (reply_tape env (call_pos w), ?w5)"
    using w2 w3 w4 by (simp add: generate_text_def)
  have "generate_variant_chunk env w prompt difficulty count =
       (case reply_tape env (call_pos w) of
          Inl e \<Rightarrow> (Inl e, ?w5)
        | Inr response_text \<Rightarrow>
            (Inr (List.map_filter id (fst (process_all env ?w5 prompt difficulty
                    (map (\<lambda>v. v\<lparr>vd_transformations_used := Some chosen\<rparr>)
                       (parse_variants response_text))))),
             snd (process_all env ?w5 prompt difficulty
                    (map (\<lambda>v. v\<lparr>vd_transformations_used := Some chosen\<rparr>)
                       (parse_variants response_text)))))"
    unfolding generate_variant_chunk_def c Let_def prod.case sum.case t tmp g
    by (simp add: split_beta split: sum.splits)
  moreover have "call_pos ?w5 = Suc (call_pos w)" using w2 w3 w4 by simp
  ultimately show ?thesis using c by (intro exI[of _ chosen] exI[of _ ?w5]) simp
qed

lemma parse_variants_nonempty:
  "p \<in> set (parse_variants text) \<Longrightarrow> \<exists>v. vd_variant p = Some v \<and> v \<noteq> []"
  using parse_block_member[of p] by (auto simp: parse_variants_def)

lemma process_all_complete:
  assumes "\<forall>vd \<in> set vds. \<exists>v. vd_variant vd = Some v \<and> v \<noteq> []"
  shows "map (\<lambda>r. Some (variant r)) (List.map_filter id (fst (process_all env w p d vds)))
           = map vd_variant vds \<and>
         map reasoning (List.map_filter id (fst (process_all env w p d vds)))
           = map vd_reasoning vds"
  using assms
proof (induction vds arbitrary: w)
  case Nil
  then show ?case by (simp add: map_filter_simps)
next
  case (Cons vd vds)
  then obtain v where v: "vd_variant vd = Some v" "v \<noteq> []" by auto
  let ?w1 = "w\<lparr>clock_pos := Suc (clock_pos w)\<rparr>"
  from v obtain r where r: "process_single_variant env w p d vd = (Some r, ?w1)"
    and rv: "variant r = v" "reasoning r = vd_reasoning vd"
    by (simp add: process_single_variant_def utcnow_def)
  from Cons.prems have "\<forall>vd \<in> set vds. \<exists>v. vd_variant vd = Some v \<and> v \<noteq> []" by simp
  from Cons.IH[OF this, of ?w1] show ?case
    using r rv v by (simp add: split_beta map_filter_simps)
qed

lemma hint_pool_default:
  "py_lower env difficulty \<notin> {str ''easier'', str ''equivalent'', str ''harder''} \<Longrightarrow>
     hint_pool env difficulty = [str ''make a small change'']"
  by (simp add: hint_pool_def dict_get_def TRANSFORMATIONS_BY_DIFFICULTY_def)

lemma decimal_small: "n < 10 \<Longrightarrow> decimal n = [48 + n]"
  by (subst decimal.simps) simp

lemma decimal_step: "10 \<le> n \<Longrightarrow> decimal n = decimal (n div 10) @ [48 + n mod 10]"
  by (subst decimal.simps) simp

lemma replicate_numeral_unfold: "replicate (numeral k) x = x # replicate (pred_numeral k) x"
  by (simp add: numeral_eq_Suc)

lemma round_half_even_bounds:
  assumes "0 < b"
  shows "2 * (b * round_half_even a b) - b \<le> 2 * a"
    and "2 * a \<le> 2 * (b * round_half_even a b) + b"
proof -
  define q r where "q = a div b" and "r = a mod b"
  have a: "a = b * q + r" by (simp add: q_def r_def)
  have r: "0 \<le> r" "r < b" using assms by (simp_all add: r_def)
  consider (down) "2 * r \<le> b" "round_half_even a b = q"
    | (up) "b \<le> 2 * r" "round_half_even a b = q + 1"
    unfolding round_half_even_def Let_def q_def[symmetric] r_def[symmetric]
    by (cases "2 * r < b"; cases "b < 2 * r"; cases "even q") auto
  then have "2 * (b * round_half_even a b) - b \<le> 2 * a \<and>
             2 * a \<le> 2 * (b * round_half_even a b) + b"
  proof cases
    case down
    then show ?thesis using a r by (simp add: algebra_simps)
  next
    case up
    then show ?thesis using a r by (simp add: algebra_simps)
  qed
  then show "2 * (b * round_half_even a b) - b \<le> 2 * a"
    and "2 * a \<le> 2 * (b * round_half_even a b) + b" by simp_all
qed

lemma round_half_even_nonneg: "0 < b \<Longrightarrow> 0 \<le> a \<Longrightarrow> 0 \<le> round_half_even a b"
  by (auto simp: round_half_even_def Let_def pos_imp_zdiv_nonneg_iff)

lemma bit_length_le: "n < 2 ^ k \<Longrightarrow> bit_length n \<le> k"
proof (induction k arbitrary: n)
  case 0
  then show ?case by (subst bit_length.simps) simp
next
  case (Suc k)
  then have "n div 2 < 2 ^ k" by simp
  from Suc.IH[OF this] show ?case by (subst bit_length.simps) simp
qed

lemma quotient_exponent_le:
  assumes "0 < t" "t < 10 * 2 ^ 50"
  shows "quotient_exponent t \<le> 49"
proof (cases "10 \<le> t")
  case True
  from assms have "nat (t div 10) < 2 ^ 50" by simp
  from bit_length_le[OF this] True show ?thesis by (simp add: quotient_exponent_def)
next
  case False
  then show ?thesis by (simp add: quotient_exponent_def)
qed

lemma ceil_div_unique:
  fixes m S c :: int
  assumes "0 < S" "S * (c - 1) < m" "m \<le> S * c"
  shows "- ((- m) div S) = c"
proof -
  have "- m = S * (- c) + (S * c - m)" by (simp add: algebra_simps)
  moreover have "0 \<le> S * c - m" using assms by simp
  moreover have "S * c - m < S" using assms by (simp add: algebra_simps)
  ultimately have "(- m) div S = - c" by (rule int_div_pos_eq)
  then show ?thesis by simp
qed

lemma floor_div_unique:
  fixes m S k :: int
  assumes "0 < S" "S * k \<le> m" "m < S * (k + 1)"
  shows "m div S = k"
proof -
  have "m = S * k + (m - S * k)" by simp
  moreover have "0 \<le> m - S * k" using assms by simp
  moreover have "m - S * k < S" using assms by (simp add: algebra_simps)
  ultimately show ?thesis by (rule int_div_pos_eq)
qed

lemma nearest_double_small:
  assumes "0 < u" "u < 10 * 2 ^ 50"
  shows "\<exists>m s. nearest_double_div10 u = (m, - int s) \<and> 3 \<le> s \<and>
           10 * m - 5 \<le> u * 2 ^ s \<and> u * 2 ^ s \<le> 10 * m + 5"
proof -
  let ?p = "quotient_exponent u - 52"
  have p: "?p \<le> - 3" using quotient_exponent_le[OF assms] by simp
  let ?s = "nat (- ?p)"
  let ?m = "round_half_even (u * 2 ^ ?s) 10"
  have "nearest_double_div10 u = (?m, - int ?s)"
    using p by (simp add: nearest_double_div10_def Let_def)
  moreover have "3 \<le> ?s" using p by simp
  moreover have "10 * ?m - 5 \<le> u * 2 ^ ?s" "u * 2 ^ ?s \<le> 10 * ?m + 5"
    using round_half_even_bounds[of 10 "u * 2 ^ ?s"] by simp_all
  ultimately show ?thesis by blast
qed

lemma num_chunks_of_exact:
  assumes "\<bar>t\<bar> < 10 * 2 ^ 50"
  shows "num_chunks_of t = Inr (- ((- t) div 10))"
proof (cases "t = 0")
  case True
  then show ?thesis by (simp add: num_chunks_of_def)
next
  case False
  let ?u = "\<bar>t\<bar>"
  from False assms have u: "0 < ?u" "?u < 10 * 2 ^ 50" by simp_all
  from nearest_double_small[OF u] obtain m s where
    nd: "nearest_double_div10 ?u = (m, - int s)" and s: "3 \<le> s" and
    lo: "10 * m - 5 \<le> ?u * 2 ^ s" and hi: "?u * 2 ^ s \<le> 10 * m + 5"
    by blast
  define S :: int where "S = 2 ^ s"
  have "(2::int) ^ 3 \<le> 2 ^ s" using s by (intro power_increasing) simp_all
  then have S: "8 \<le> S" by (simp add: S_def)
  have lo': "10 * m - 5 \<le> ?u * S" and hi': "?u * S \<le> 10 * m + 5"
    using lo hi by (simp_all add: S_def)
  have noov: "\<not> (0 \<le> - int s \<and> (2::int) ^ 1024 \<le> m * 2 ^ nat (- int s))"
    using s by simp
  show ?thesis
  proof (cases "0 < t")
    case True
    define c where "c = - ((- t) div 10)"
    have c: "10 * (c - 1) < t" "t \<le> 10 * c" unfolding c_def by presburger+
    have ut: "?u = t" using True by simp
    have "t * S \<le> (10 * c) * S" using c(2) S by (intro mult_right_mono) simp_all
    then have a: "t * S \<le> 10 * (S * c)" by (simp add: algebra_simps)
    have "(10 * (c - 1) + 1) * S \<le> t * S"
      using c(1) S by (intro mult_right_mono) simp_all
    then have b: "10 * (S * (c - 1)) + S \<le> t * S" by (simp add: algebra_simps)
    have lo'': "10 * m - 5 \<le> t * S" and hi'': "t * S \<le> 10 * m + 5"
      using lo' hi' ut by simp_all
    have "S * (c - 1) < m" using b hi'' S by linarith
    moreover have "m \<le> S * c" using a lo'' by linarith
    ultimately have "S * (c - 1) < m" "m \<le> S * c" by blast+
    with S have "- ((- m) div S) = c" by (intro ceil_div_unique) simp_all
    then have "num_chunks_of t = Inr c"
      using True False nd s by (simp add: num_chunks_of_def S_def)
    then show ?thesis by (simp add: c_def)
  next
    case neg: False
    with False have tneg: "t < 0" by simp
    define k where "k = ?u div 10"
    have k: "10 * k \<le> ?u" "?u \<le> 10 * k + 9" unfolding k_def by presburger+
    define U where "U = ?u * S"
    have "(10 * k) * S \<le> ?u * S" using k(1) S by (intro mult_right_mono) simp_all
    then have a: "10 * (S * k) \<le> U" by (simp add: algebra_simps U_def)
    have "?u * S \<le> (10 * k + 9) * S" using k(2) S by (intro mult_right_mono) simp_all
    then have b: "U \<le> 10 * (S * (k + 1)) - S" by (simp add: algebra_simps U_def)
    have lo'': "10 * m - 5 \<le> U" and hi'': "U \<le> 10 * m + 5"
      using lo' hi' by (simp_all add: U_def)
    have "S * k \<le> m" using a hi'' by linarith
    moreover have "m < S * (k + 1)" using b lo'' S by linarith
    ultimately have "S * k \<le> m" "m < S * (k + 1)" by blast+
    with S have "m div S = k" by (intro floor_div_unique) simp_all
    then have "num_chunks_of t = Inr (- k)"
      using tneg nd s by (simp add: num_chunks_of_def S_def)
    moreover have "- ((- t) div 10) = - k" using tneg by (simp add: k_def)
    ultimately show ?thesis by simp
  qed
qed

lemma num_chunks_of_nonpositive:
  assumes "t \<le> 0" "num_chunks_of t = Inr c"
  shows "c \<le> 0"
proof (cases "t = 0")
  case True
  with assms show ?thesis by (simp add: num_chunks_of_def)
next
  case False
  obtain m p where nd: "nearest_double_div10 \<bar>t\<bar> = (m, p)"
    by (cases "nearest_double_div10 \<bar>t\<bar>")
  have "0 \<le> m" using nd False
    by (auto simp: nearest_double_div10_def Let_def intro!: round_half_even_nonneg
        split: if_splits)
  then have "0 \<le> m * 2 ^ nat p" "0 \<le> m div 2 ^ nat (- p)"
    by (simp_all add: pos_imp_zdiv_nonneg_iff)
  with assms False nd show ?thesis
    by (auto simp: num_chunks_of_def split: if_splits)
qed





lemma chunk_list_eq:
  "chunk_list k t =
     (if k \<le> 0 then [] else replicate (nat (k - 1)) 10 @ [t - 10 * (k - 1)])"
proof (cases "k \<le> 0")
  case True
  then show ?thesis by (simp add: chunk_list_def)
next
  case False
  then have k: "1 \<le> k" by simp
  have all10: "map (\<lambda>i. if i < k - 1 then 10 else t - 10 * (k - 1)) [0..m]
      = replicate (nat (m + 1)) (10::int)" if "m < k - 1" for m
    using that
  proof (induction "nat (m + 1)" arbitrary: m)
    case 0
    then have "m < 0" by linarith
    then show ?case by simp
  next
    case (Suc n)
    then have m: "0 \<le> m" by linarith
    then have "[0..m] = [0..m - 1] @ [m]" by (simp add: upto_rec2)
    moreover have "n = nat (m - 1 + 1)" using Suc.hyps(2) by linarith
    moreover have "m - 1 < k - 1" using Suc.prems by linarith
    ultimately have "map (\<lambda>i. if i < k - 1 then 10 else t - 10 * (k - 1)) [0..m]
        = replicate n 10 @ [10]"
      using Suc.hyps(1)[of "m - 1"] Suc.prems by simp
    also have "\<dots> = replicate (Suc n) 10" by (simp add: replicate_append_same)
    finally show ?case using Suc.hyps(2) by simp
  qed
  have "[0..k - 1] = [0..k - 2] @ [k - 1]"
    using k upto_rec2[of 0 "k - 1"] by simp
  then have "chunk_list k t =
      map (\<lambda>i. if i < k - 1 then 10 else t - 10 * (k - 1)) [0..k - 2] @ [t - 10 * (k - 1)]"
    by (simp add: chunk_list_def)
  also have "\<dots> = replicate (nat (k - 2 + 1)) 10 @ [t - 10 * (k - 1)]"
    using all10[of "k - 2"] by simp
  finally show ?thesis using False by (simp add: algebra_simps)
qed

text \<open>
  Below \<open>10 * 2 ^ 50\<close> the rounding of the quotient does not reach its ceiling, so the
  number of chunks is the exact ceiling of a tenth of the total.
\<close>

lemma chunk_counts_small:
  assumes "\<bar>t\<bar> < 10 * 2 ^ 50"
  shows "chunk_counts t =
     Inr (if t \<le> 0 then []
          else replicate (nat (- ((- t) div 10) - 1)) 10 @ [t - 10 * (- ((- t) div 10) - 1)])"
proof -
  have "t \<le> 0 \<longleftrightarrow> - ((- t) div 10) \<le> 0" by presburger
  then show ?thesis
    by (simp add: chunk_counts_def num_chunks_of_exact[OF assms] chunk_list_eq)
qed

lemma chunk_counts_nonpositive:
  assumes "t \<le> 0" "chunk_counts t = Inr counts"
  shows "counts = []"
proof -
  from assms(2) obtain k where k: "num_chunks_of t = Inr k" "counts = chunk_list k t"
    by (auto simp: chunk_counts_def split: sum.splits)
  from num_chunks_of_nonpositive[OF assms(1) k(1)] k(2) show ?thesis
    by (simp add: chunk_list_eq)
qed


lemma make_tasks_Inl:
  "make_tasks ds n = Inl e \<Longrightarrow> chunk_counts (n * buffer_multiplier) = Inl e"
  by (induction ds) (auto split: sum.splits)

lemma make_tasks_fst: "make_tasks ds n = Inr tasks \<Longrightarrow> (d, c) \<in> set tasks \<Longrightarrow> d \<in> set ds"
  by (induction ds arbitrary: tasks) (auto split: sum.splits)

lemma make_tasks_nonpositive: "n \<le> 0 \<Longrightarrow> make_tasks ds n = Inr tasks \<Longrightarrow> tasks = []"
proof (induction ds arbitrary: tasks)
  case Nil
  then show ?case by simp
next
  case (Cons d ds)
  from Cons.prems(2) obtain counts rest where
    c: "chunk_counts (n * buffer_multiplier) = Inr counts" and
    r: "make_tasks ds n = Inr rest" and
    t: "tasks = map (\<lambda>count. (d, count)) counts @ rest"
    by (auto split: sum.splits)
  have "n * buffer_multiplier \<le> 0" using Cons.prems(1) by (simp add: buffer_multiplier_def)
  from chunk_counts_nonpositive[OF this c] Cons.IH[OF Cons.prems(1) r] t show ?case by simp
qed

subsection \<open>The claims\<close>

text \<open>
  Claim C7. When the variant text of the pair is missing or empty, the builder returns
  nothing and leaves the state as it is. Otherwise it returns a record that copies the
  original prompt, the difficulty, the variant text, the reasoning and the list of
  transformations (the empty list when the pair has none), has no evaluation, and whose
  timestamp is the reading of the clock in ISO format followed by \<^verbatim>\<open>Z\<close>.
\<close>

theorem process_single_variant_result:
  "(vd_variant vd = None \<or> vd_variant vd = Some [] \<longrightarrow>
      process_single_variant env w original_prompt difficulty vd = (None, w)) \<and>
   (\<forall>v. vd_variant vd = Some v \<and> v \<noteq> [] \<longrightarrow>
      process_single_variant env w original_prompt difficulty vd =
        (Some \<lparr>original = original_prompt,
               requested_difficulty = difficulty,
               variant = v,
               reasoning = vd_reasoning vd,
               transformations_used =
                 (case vd_transformations_used vd of None \<Rightarrow> [] | Some ts \<Rightarrow> ts),
               evaluation = None,
               timestamp = isoformat (clock_tape env (clock_pos w)) @ str ''Z''\<rparr>,
         w\<lparr>clock_pos := Suc (clock_pos w)\<rparr>))"
  by (auto simp: process_single_variant_def utcnow_def)

theorem process_single_variant_result_witness:
  "process_single_variant (example_env (\<lambda>k. 0) (\<lambda>k. Inl GenerationError)) start (str ''p'')
       (str ''easier'')
       \<lparr>vd_reasoning = Some (str ''r''), vd_variant = Some (str ''v''),
        vd_transformations_used = Some [str ''t'']\<rparr>
     = (Some \<lparr>original = str ''p'', requested_difficulty = str ''easier'', variant = str ''v'',
              reasoning = Some (str ''r''), transformations_used = [str ''t''],
              evaluation = None, timestamp = str ''2025-01-02T03:04:05.000006Z''\<rparr>,
        start\<lparr>clock_pos := 1\<rparr>) \<and>
   process_single_variant (example_env (\<lambda>k. 0) (\<lambda>k. Inl GenerationError)) start (str ''p'')
       (str ''easier'')
       \<lparr>vd_reasoning = Some (str ''r''), vd_variant = Some [],
        vd_transformations_used = Some [str ''t'']\<rparr>
     = (None, start) \<and>
   process_single_variant (example_env (\<lambda>k. 0) (\<lambda>k. Inl GenerationError)) start (str ''p'')
       (str ''easier'')
       \<lparr>vd_reasoning = Some (str ''r''), vd_variant = None,
        vd_transformations_used = Some [str ''t'']\<rparr>
     = (None, start)"
  using process_single_variant_result
      [of "\<lparr>vd_reasoning = Some (str ''r''), vd_variant = Some (str ''v''),
             vd_transformations_used = Some [str ''t'']\<rparr>"
          "example_env (\<lambda>k. 0) (\<lambda>k. Inl GenerationError)" start "str ''p''" "str ''easier''"]
    process_single_variant_result
      [of "\<lparr>vd_reasoning = Some (str ''r''), vd_variant = Some [],
             vd_transformations_used = Some [str ''t'']\<rparr>"
          "example_env (\<lambda>k. 0) (\<lambda>k. Inl GenerationError)" start "str ''p''" "str ''easier''"]
    process_single_variant_result
      [of "\<lparr>vd_reasoning = Some (str ''r''), vd_variant = None,
             vd_transformations_used = Some [str ''t'']\<rparr>"
          "example_env (\<lambda>k. 0) (\<lambda>k. Inl GenerationError)" start "str ''p''" "str ''easier''"]
  by (simp add: str_def example_env_def example_clock_def start_def isoformat_def zfill_def
      decimal_small decimal_step replicate_numeral_unfold)




text \<open>
  Claim C9. Drawing the hints never fails: the sample has as many hints as the number
  drawn between 3 and 6, capped at the size of the pool, and all come from the pool. For
  a difficulty whose lower-cased text is none of the three known labels the pool is the
  default pool and the sample is its one hint. The chunk then fails only when the
  service does, and otherwise returns one record per parsed pair, each carrying the
  sample, the difficulty and the prompt.
\<close>

theorem chunk_hint_sample:
  "\<exists>chosen. fst (choose_transforms env w difficulty) = Inr chosen \<and>
     length chosen =
       min (3 + random_tape env (rand_pos w) mod 4) (length (hint_pool env difficulty)) \<and>
     set chosen \<subseteq> set (hint_pool env difficulty) \<and>
     (py_lower env difficulty \<notin> {str ''easier'', str ''equivalent'', str ''harder''} \<longrightarrow>
        hint_pool env difficulty = [str ''make a small change''] \<and>
        chosen = [str ''make a small change'']) \<and>
     (case reply_tape env (call_pos w) of
        Inl e \<Rightarrow> fst (generate_variant_chunk env w prompt difficulty count) = Inl e
      | Inr response_text \<Rightarrow>
          (\<exists>rs. fst (generate_variant_chunk env w prompt difficulty count) = Inr rs \<and>
             map (\<lambda>r. Some (variant r)) rs = map vd_variant (parse_variants response_text) \<and>
             map reasoning rs = map vd_reasoning (parse_variants response_text) \<and>
             (\<forall>r \<in> set rs. transformations_used r = chosen \<and>
                requested_difficulty r = difficulty \<and> original r = prompt)))"
proof -
  from generate_variant_chunk_eq[of env w difficulty prompt count] obtain chosen w5 where
    c: "fst (choose_transforms env w difficulty) = Inr chosen" and
    g: "generate_variant_chunk env w prompt difficulty count =
       (case reply_tape env (call_pos w) of
          Inl e \<Rightarrow> (Inl e, w5)
        | Inr response_text \<Rightarrow>
            (Inr (List.map_filter id (fst (process_all env w5 prompt difficulty
                    (map (\<lambda>v. v\<lparr>vd_transformations_used := Some chosen\<rparr>)
                       (parse_variants response_text))))),
             snd (process_all env w5 prompt difficulty
                    (map (\<lambda>v. v\<lparr>vd_transformations_used := Some chosen\<rparr>)
                       (parse_variants response_text)))))"
    by blast
  from choose_transforms_ok[of env w difficulty] c have
    l: "length chosen =
       min (3 + random_tape env (rand_pos w) mod 4) (length (hint_pool env difficulty))"
    and sub: "set chosen \<subseteq> set (hint_pool env difficulty)"
    by auto
  have dflt: "hint_pool env difficulty = [str ''make a small change''] \<and>
        chosen = [str ''make a small change'']"
    if "py_lower env difficulty \<notin> {str ''easier'', str ''equivalent'', str ''harder''}"
  proof -
    from hint_pool_default[OF that] have p: "hint_pool env difficulty = [str ''make a small change'']" .
    with l have "length chosen = 1" by simp
    then obtain x where "chosen = [x]" by (cases chosen) auto
    with sub p show ?thesis by simp
  qed
  have reply: "case reply_tape env (call_pos w) of
        Inl e \<Rightarrow> fst (generate_variant_chunk env w prompt difficulty count) = Inl e
      | Inr response_text \<Rightarrow>
          (\<exists>rs. fst (generate_variant_chunk env w prompt difficulty count) = Inr rs \<and>
             map (\<lambda>r. Some (variant r)) rs = map vd_variant (parse_variants response_text) \<and>
             map reasoning rs = map vd_reasoning (parse_variants response_text) \<and>
             (\<forall>r \<in> set rs. transformations_used r = chosen \<and>
                requested_difficulty r = difficulty \<and> original r = prompt))"
  proof (cases "reply_tape env (call_pos w)")
    case (Inl e)
    then show ?thesis using g by simp
  next
    case (Inr response_text)
    let ?vds = "map (\<lambda>v. v\<lparr>vd_transformations_used := Some chosen\<rparr>)
                       (parse_variants response_text)"
    let ?rs = "List.map_filter id (fst (process_all env w5 prompt difficulty ?vds))"
    have ne: "\<forall>vd \<in> set ?vds. \<exists>v. vd_variant vd = Some v \<and> v \<noteq> []"
      using parse_variants_nonempty[of _ response_text] by auto
    from process_all_complete[OF ne, of env w5 prompt difficulty] have
      m: "map (\<lambda>r. Some (variant r)) ?rs = map vd_variant (parse_variants response_text)"
         "map reasoning ?rs = map vd_reasoning (parse_variants response_text)"
      by (simp_all add: comp_def)
    have each: "\<forall>r \<in> set ?rs. transformations_used r = chosen \<and>
                requested_difficulty r = difficulty \<and> original r = prompt"
      using process_all_records[of _ env w5 prompt difficulty ?vds] by fastforce
    have "fst (generate_variant_chunk env w prompt difficulty count) = Inr ?rs"
      using g Inr by simp
    with m each show ?thesis using Inr by simp
  qed
  from c l sub dflt reply show ?thesis by blast
qed

lemmas world_eval_defs =
  example_env_def start_def py_lower_def hint_pool_def dict_get_def
  TRANSFORMATIONS_BY_DIFFICULTY_def str_def

theorem chunk_hint_sample_witness:
  "py_lower (example_env (\<lambda>k. 3) (\<lambda>k. Inl GenerationError)) (str ''Impossible'')
     \<notin> {str ''easier'', str ''equivalent'', str ''harder''} \<and>
   fst (choose_transforms (example_env (\<lambda>k. 3) (\<lambda>k. Inl GenerationError)) start
          (str ''Impossible'')) = Inr [str ''make a small change''] \<and>
   fst (generate_variant_chunk (example_env (\<lambda>k. 3) (\<lambda>k. Inl GenerationError)) start
          (str ''p'') (str ''Impossible'') 9) = Inl GenerationError \<and>
   length (hint_pool (example_env (\<lambda>k. 3) (\<lambda>k. Inl GenerationError)) (str ''EASIER'')) = 4 \<and>
   (\<exists>chosen. fst (choose_transforms (example_env (\<lambda>k. 3) (\<lambda>k. Inl GenerationError)) start
          (str ''EASIER'')) = Inr chosen \<and> length chosen = 4)"
  using chunk_hint_sample [of "example_env (\<lambda>k. 3) (\<lambda>k. Inl GenerationError)" start
      "str ''Impossible''" "str ''p''" 9]
    chunk_hint_sample [of "example_env (\<lambda>k. 3) (\<lambda>k. Inl GenerationError)" start
      "str ''EASIER''" "str ''p''" 9]
  by (auto simp: world_eval_defs)

section \<open>Properties of the orchestrator\<close>

subsection \<open>Auxiliary facts\<close>

lemma first_by_append:
  "first_by f (xs @ ys) = first_by f xs @ first_by f (filter (\<lambda>y. f y \<notin> f ` set xs) ys)"
proof (induction f xs arbitrary: ys rule: first_by.induct)
  case (1 f)
  then show ?case by simp
next
  case (2 f x xs)
  have "filter (\<lambda>y. f y \<notin> f ` set (filter (\<lambda>y. f y \<noteq> f x) xs)) (filter (\<lambda>y. f y \<noteq> f x) ys)
      = filter (\<lambda>y. f y \<notin> f ` set (x # xs)) ys"
    by (auto intro!: filter_cong)
  with 2[of "filter (\<lambda>y. f y \<noteq> f x) ys"] show ?case by simp
qed

lemma set_first_by: "set (first_by f xs) \<subseteq> set xs"
  by (induction f xs rule: first_by.induct) auto

lemma image_first_by: "f ` set (first_by f xs) = f ` set xs"
proof (induction f xs rule: first_by.induct)
  case (1 f)
  then show ?case by simp
next
  case (2 f x xs)
  then show ?case by auto
qed

lemma distinct_first_by: "distinct (map f (first_by f xs))"
proof (induction f xs rule: first_by.induct)
  case (1 f)
  then show ?case by simp
next
  case (2 f x xs)
  have "f x \<notin> f ` set (first_by f (filter (\<lambda>y. f y \<noteq> f x) xs))"
    using set_first_by[of f "filter (\<lambda>y. f y \<noteq> f x) xs"] by auto
  with 2 show ?case by simp
qed

lemma merge_chunk_eq:
  assumes "difficulty_dict difficulty = Some accepted"
  shows "merge_chunk difficulty chunk (seen, difficulty_dict) =
     Inr (seen \<union> variant ` {r \<in> set chunk. variant r \<noteq> []},
          difficulty_dict(difficulty \<mapsto> accepted @
             first_by variant (filter (\<lambda>r. variant r \<noteq> [] \<and> variant r \<notin> seen) chunk)))"
  using assms
proof (induction chunk arbitrary: seen difficulty_dict accepted)
  case Nil
  then show ?case by (simp add: fun_upd_idem)
next
  case (Cons v vs)
  show ?case
  proof (cases "variant v \<noteq> [] \<and> variant v \<notin> seen")
    case True
    let ?dd = "difficulty_dict(difficulty \<mapsto> accepted @ [v])"
    let ?rest = "first_by variant
                   (filter (\<lambda>r. variant r \<noteq> [] \<and> variant r \<notin> insert (variant v) seen) vs)"
    have "merge_chunk difficulty (v # vs) (seen, difficulty_dict) =
        merge_chunk difficulty vs (insert (variant v) seen, ?dd)"
      using True Cons.prems by simp
    also have "\<dots> =
         Inr (insert (variant v) seen \<union> variant ` {r \<in> set vs. variant r \<noteq> []},
              ?dd(difficulty \<mapsto> (accepted @ [v]) @ ?rest))"
      by (rule Cons.IH) simp
    finally have m: "merge_chunk difficulty (v # vs) (seen, difficulty_dict) =
         Inr (insert (variant v) seen \<union> variant ` {r \<in> set vs. variant r \<noteq> []},
              difficulty_dict(difficulty \<mapsto> accepted @ v # ?rest))"
      by (simp del: merge_chunk.simps)
    have "filter (\<lambda>y. variant y \<noteq> variant v)
          (filter (\<lambda>r. variant r \<noteq> [] \<and> variant r \<notin> seen) vs)
        = filter (\<lambda>r. variant r \<noteq> [] \<and> variant r \<notin> insert (variant v) seen) vs"
      by (auto intro!: filter_cong)
    then have fb: "first_by variant (filter (\<lambda>r. variant r \<noteq> [] \<and> variant r \<notin> seen) (v # vs))
        = v # ?rest"
      using True by simp
    have st: "insert (variant v) seen \<union> variant ` {r \<in> set vs. variant r \<noteq> []}
        = seen \<union> variant ` {r \<in> set (v # vs). variant r \<noteq> []}"
      using True by auto
    show ?thesis unfolding m fb st ..
  next
    case False
    have "merge_chunk difficulty (v # vs) (seen, difficulty_dict) =
        merge_chunk difficulty vs (seen, difficulty_dict)"
      using False by auto
    also have "\<dots> =
         Inr (seen \<union> variant ` {r \<in> set vs. variant r \<noteq> []},
              difficulty_dict(difficulty \<mapsto> accepted @
                 first_by variant (filter (\<lambda>r. variant r \<noteq> [] \<and> variant r \<notin> seen) vs)))"
      by (rule Cons.IH) (rule Cons.prems)
    finally have m: "merge_chunk difficulty (v # vs) (seen, difficulty_dict) =
         Inr (seen \<union> variant ` {r \<in> set vs. variant r \<noteq> []},
              difficulty_dict(difficulty \<mapsto> accepted @
                 first_by variant (filter (\<lambda>r. variant r \<noteq> [] \<and> variant r \<notin> seen) vs)))" .
    have fb: "filter (\<lambda>r. variant r \<noteq> [] \<and> variant r \<notin> seen) (v # vs)
        = filter (\<lambda>r. variant r \<noteq> [] \<and> variant r \<notin> seen) vs"
      using False by auto
    have st: "seen \<union> variant ` {r \<in> set vs. variant r \<noteq> []}
        = seen \<union> variant ` {r \<in> set (v # vs). variant r \<noteq> []}"
      using False by auto
    show ?thesis unfolding m fb st ..
  qed
qed

lemma merge_all_eq:
  assumes "\<forall>(d, chunk) \<in> set pairs. d \<in> dom dd \<and> (\<forall>r \<in> set chunk. requested_difficulty r = d)"
  shows "\<exists>seen'. merge_all pairs (seen, dd) =
     Inr (seen',
          \<lambda>k. case dd k of
                 None \<Rightarrow> None
               | Some acc \<Rightarrow>
                   Some (acc @ filter (\<lambda>r. requested_difficulty r = k)
                      (first_by variant
                         (filter (\<lambda>r. variant r \<noteq> [] \<and> variant r \<notin> seen)
                            (concat (map snd pairs))))))"
  using assms
proof (induction pairs arbitrary: seen dd)
  case Nil
  have "(\<lambda>k. case dd k of None \<Rightarrow> None
            | Some acc \<Rightarrow> Some (acc @ filter (\<lambda>r. requested_difficulty r = k)
                 (first_by variant (filter (\<lambda>r. variant r \<noteq> [] \<and> variant r \<notin> seen)
                    (concat (map snd [])))))) = dd"
    by (rule ext) (simp split: option.splits)
  then show ?case by (metis merge_all.simps(1))
next
  case (Cons p rest)
  obtain d chunk where p: "p = (d, chunk)" by (cases p)
  from Cons.prems p obtain acc where acc: "dd d = Some acc"
    and rd: "\<forall>r \<in> set chunk. requested_difficulty r = d" by auto
  let ?ok = "\<lambda>S r. variant r \<noteq> [] \<and> variant r \<notin> S"
  let ?A1 = "first_by variant (filter (?ok seen) chunk)"
  let ?S1 = "seen \<union> variant ` {r \<in> set chunk. variant r \<noteq> []}"
  let ?dd1 = "dd(d \<mapsto> acc @ ?A1)"
  let ?R = "concat (map snd rest)"
  let ?X = "first_by variant (filter (?ok ?S1) ?R)"
  have m: "merge_chunk d chunk (seen, dd) = Inr (?S1, ?dd1)"
    by (rule merge_chunk_eq) (rule acc)
  have "\<forall>(d', chunk') \<in> set rest.
      d' \<in> dom ?dd1 \<and> (\<forall>r \<in> set chunk'. requested_difficulty r = d')"
    using Cons.prems by auto
  from Cons.IH[OF this, of ?S1] obtain seen' where
    ih: "merge_all rest (?S1, ?dd1) =
      Inr (seen', \<lambda>k. case ?dd1 k of None \<Rightarrow> None
             | Some acc \<Rightarrow> Some (acc @ filter (\<lambda>r. requested_difficulty r = k) ?X))"
    by blast
  have flt: "filter (\<lambda>y. variant y \<notin> variant ` set (filter (?ok seen) chunk)) (filter (?ok seen) ?R)
      = filter (?ok ?S1) ?R"
    by (auto intro!: filter_cong)
  have fb: "first_by variant (filter (?ok seen) (concat (map snd (p # rest)))) = ?A1 @ ?X"
    using p flt by (simp add: first_by_append)
  have a1: "filter (\<lambda>r. requested_difficulty r = k) ?A1 = (if k = d then ?A1 else [])" for k
  proof -
    have "\<forall>r \<in> set ?A1. requested_difficulty r = d"
      using set_first_by[of variant "filter (?ok seen) chunk"] rd by auto
    then show ?thesis by (auto simp: filter_empty_conv filter_id_conv)
  qed
  have "(\<lambda>k. case ?dd1 k of None \<Rightarrow> None
             | Some acc \<Rightarrow> Some (acc @ filter (\<lambda>r. requested_difficulty r = k) ?X))
      = (\<lambda>k. case dd k of None \<Rightarrow> None
             | Some acc \<Rightarrow> Some (acc @ filter (\<lambda>r. requested_difficulty r = k)
                 (first_by variant (filter (?ok seen) (concat (map snd (p # rest)))))))"
    unfolding fb using acc by (auto simp: a1 split: option.splits)
  then show ?case using p m ih by (simp del: fun_upd_apply)
qed

lemma chunk_cases:
  obtains (fail) e w5 where "reply_tape env (call_pos w) = Inl e"
      "generate_variant_chunk env w p d c = (Inl e, w5)" "call_pos w5 = Suc (call_pos w)"
  | (ok) resp chosen w5 where "reply_tape env (call_pos w) = Inr resp"
      "generate_variant_chunk env w p d c =
         (Inr (List.map_filter id (fst (process_all env w5 p d
                    (map (\<lambda>v. v\<lparr>vd_transformations_used := Some chosen\<rparr>)
                       (parse_variants resp))))),
          snd (process_all env w5 p d
                    (map (\<lambda>v. v\<lparr>vd_transformations_used := Some chosen\<rparr>)
                       (parse_variants resp))))"
      "call_pos w5 = Suc (call_pos w)"
proof -
  from generate_variant_chunk_eq[of env w d p c] obtain chosen w5 where
    w5: "call_pos w5 = Suc (call_pos w)" and
    g: "generate_variant_chunk env w p d c =
       (case reply_tape env (call_pos w) of
          Inl e \<Rightarrow> (Inl e, w5)
        | Inr response_text \<Rightarrow>
            (Inr (List.map_filter id (fst (process_all env w5 p d
                    (map (\<lambda>v. v\<lparr>vd_transformations_used := Some chosen\<rparr>)
                       (parse_variants response_text))))),
             snd (process_all env w5 p d
                    (map (\<lambda>v. v\<lparr>vd_transformations_used := Some chosen\<rparr>)
                       (parse_variants response_text)))))"
    by blast
  show thesis
  proof (cases "reply_tape env (call_pos w)")
    case (Inl e)
    with g w5 fail show ?thesis by simp
  next
    case (Inr resp)
    with g w5 ok show ?thesis by simp
  qed
qed

lemma chunk_call_pos:
  "call_pos (snd (generate_variant_chunk env w p d c)) = Suc (call_pos w)"
  by (cases rule: chunk_cases[of env w p d c]) (simp_all add: process_all_world)

lemma chunk_fail_iff:
  "fst (generate_variant_chunk env w p d c) = Inl e \<longleftrightarrow> reply_tape env (call_pos w) = Inl e"
  by (cases rule: chunk_cases[of env w p d c]) auto

lemma chunk_records:
  assumes "fst (generate_variant_chunk env w p d c) = Inr rs" and "r \<in> set rs"
  shows "requested_difficulty r = d \<and> variant r \<noteq> [] \<and> original r = p"
proof (cases rule: chunk_cases[of env w p d c])
  case (fail e w5)
  with assms show ?thesis by simp
next
  case (ok resp chosen w5)
  with assms have "r \<in> set (List.map_filter id (fst (process_all env w5 p d
                    (map (\<lambda>v. v\<lparr>vd_transformations_used := Some chosen\<rparr>)
                       (parse_variants resp)))))"
    by simp
  from process_all_records[OF this] show ?thesis by blast
qed

lemma run_chunks_length: "length (fst (run_chunks env w b tasks)) = length tasks"
  by (induction tasks arbitrary: w) (auto simp: split_beta)

lemma run_chunks_call_pos:
  "call_pos (snd (run_chunks env w b tasks)) = call_pos w + length tasks"
proof (induction tasks arbitrary: w)
  case Nil
  then show ?case by simp
next
  case (Cons t tasks)
  obtain d c where t: "t = (d, c)" by (cases t)
  show ?case
    using Cons.IH[of "snd (generate_variant_chunk env w b d c)"] chunk_call_pos[of env w b d c]
    by (simp add: t split_beta)
qed

lemma run_chunks_nth:
  assumes "i < length tasks"
  shows "(fst (run_chunks env w b tasks) ! i = Inl e \<longleftrightarrow> reply_tape env (call_pos w + i) = Inl e) \<and>
         (\<forall>rs. fst (run_chunks env w b tasks) ! i = Inr rs \<longrightarrow>
            (\<forall>r \<in> set rs. requested_difficulty r = fst (tasks ! i) \<and> variant r \<noteq> [] \<and>
               original r = b))"
  using assms
proof (induction tasks arbitrary: w i)
  case Nil
  then show ?case by simp
next
  case (Cons t tasks)
  obtain d c where t: "t = (d, c)" by (cases t)
  let ?w1 = "snd (generate_variant_chunk env w b d c)"
  have run: "fst (run_chunks env w b (t # tasks)) =
      fst (generate_variant_chunk env w b d c) # fst (run_chunks env ?w1 b tasks)"
    by (simp add: t split_beta)
  show ?case
  proof (cases i)
    case 0
    then show ?thesis
      using run chunk_fail_iff[of env w b d c e] chunk_records[of env w b d c] t by auto
  next
    case (Suc j)
    with Cons.prems have "j < length tasks" by simp
    from Cons.IH[OF this, of ?w1] show ?thesis
      using run Suc chunk_call_pos[of env w b d c] by simp
  qed
qed

lemma gather_Inr_iff: "gather rs = Inr outs \<longleftrightarrow> rs = map Inr outs"
proof (induction rs arbitrary: outs)
  case Nil
  then show ?case by auto
next
  case (Cons x rs)
  show ?case
  proof (cases x)
    case (Inl e)
    then show ?thesis by auto
  next
    case (Inr v)
    show ?thesis
    proof (cases "gather rs")
      case (Inl e)
      have "rs \<noteq> map Inr ys" for ys using Cons.IH[of ys] Inl by auto
      then show ?thesis using Inl \<open>x = Inr v\<close> by (auto simp: Cons_eq_map_conv)
    next
      case (Inr vs)
      then have "rs = map Inr vs" using Cons.IH by blast
      then show ?thesis using Inr \<open>x = Inr v\<close> by (auto simp: Cons_eq_map_conv inj_Inr[THEN inj_map_eq_map])
    qed
  qed
qed

lemma gather_Inl_iff: "(\<exists>e. gather rs = Inl e) \<longleftrightarrow> (\<exists>e. Inl e \<in> set rs)"
  by (induction rs rule: gather.induct) (auto split: sum.splits)

lemma gather_Inl_mem: "gather rs = Inl e \<Longrightarrow> Inl e \<in> set rs"
  by (induction rs rule: gather.induct) (auto split: sum.splits)

lemma init_dict_apply: "init_dict ds k = (if k \<in> set ds then Some [] else None)"
proof -
  have "fold (\<lambda>d m. m(d \<mapsto> [])) ds m k = (if k \<in> set ds then Some [] else m k)"
    for m :: "pystr \<rightharpoonup> variant_record list"
    by (induction ds arbitrary: m) auto
  then show ?thesis by (simp add: init_dict_def)
qed

lemma collect_final_eq:
  "\<forall>d \<in> set ds. dd d \<noteq> None \<Longrightarrow>
     collect_final dd n ds = Inr (concat (map (\<lambda>d. slice_to (the (dd d)) n) ds))"
  by (induction ds) auto

lemma top_level_eq:
  assumes mt: "make_tasks ds n = Inr tasks"
  shows "top_level env w b ds n =
     (case gather (fst (run_chunks env w b tasks)) of
        Inl e \<Rightarrow> (Inl e, snd (run_chunks env w b tasks))
      | Inr outs \<Rightarrow> (Inr (spec_top_level outs ds n), snd (run_chunks env w b tasks)))"
proof (cases "gather (fst (run_chunks env w b tasks))")
  case (Inl e)
  then show ?thesis by (simp add: top_level_def mt Let_def split_beta)
next
  case (Inr outs)
  let ?results = "fst (run_chunks env w b tasks)"
  let ?pairs = "zip (map fst tasks) outs"
  let ?all = "first_by variant (concat outs)"
  from Inr have res: "?results = map Inr outs" by (simp add: gather_Inr_iff)
  then have len: "length outs = length tasks"
    using run_chunks_length[of env w b tasks] by (metis length_map)
  have each: "requested_difficulty r = fst (tasks ! i) \<and> variant r \<noteq> []"
    if "i < length tasks" "r \<in> set (outs ! i)" for i r
  proof -
    from that(1) len res have "?results ! i = Inr (outs ! i)" by simp
    with run_chunks_nth[OF that(1), of env w b] that(2) show ?thesis by blast
  qed
  have pre: "\<forall>(d, chunk) \<in> set ?pairs.
      d \<in> dom (init_dict ds) \<and> (\<forall>r \<in> set chunk. requested_difficulty r = d)"
  proof (clarify, intro conjI ballI)
    fix d chunk
    assume "(d, chunk) \<in> set ?pairs"
    then obtain i where i: "i < length tasks" "d = fst (tasks ! i)" "chunk = outs ! i"
      using len by (auto simp: set_zip)
    then have "(d, snd (tasks ! i)) \<in> set tasks" by simp
    then have "d \<in> set ds" by (rule make_tasks_fst[OF mt])
    then show "d \<in> dom (init_dict ds)" by (simp add: init_dict_apply dom_def)
    fix r assume "r \<in> set chunk"
    with each[of i r] i show "requested_difficulty r = d" by simp
  qed
  have nonempty: "filter (\<lambda>r. variant r \<noteq> [] \<and> variant r \<notin> {}) (concat outs) = concat outs"
  proof -
    have "variant r \<noteq> []" if "r \<in> set (concat outs)" for r
    proof -
      from that obtain out where "out \<in> set outs" "r \<in> set out" by auto
      then obtain i where "i < length outs" "r \<in> set (outs ! i)"
        by (metis in_set_conv_nth)
      with each[of i r] len show ?thesis by simp
    qed
    then show ?thesis by (simp add: filter_id_conv)
  qed
  have snd_pairs: "map snd ?pairs = outs" using len by (simp add: map_snd_zip)
  from merge_all_eq[OF pre, of "{}"] obtain seen' where
    m: "merge_all ?pairs ({}, init_dict ds) =
      Inr (seen', \<lambda>k. case init_dict ds k of None \<Rightarrow> None
            | Some acc \<Rightarrow> Some (acc @ filter (\<lambda>r. requested_difficulty r = k) ?all))"
    unfolding snd_pairs nonempty by blast
  let ?dd = "\<lambda>k. case init_dict ds k of None \<Rightarrow> None
            | Some acc \<Rightarrow> Some (acc @ filter (\<lambda>r. requested_difficulty r = k) ?all)"
  have dd: "?dd d = Some (filter (\<lambda>r. requested_difficulty r = d) ?all)" if "d \<in> set ds" for d
    using that by (simp add: init_dict_apply)
  then have "\<forall>d \<in> set ds. ?dd d \<noteq> None" by simp
  from collect_final_eq[OF this, of n] have
    c: "collect_final ?dd n ds =
      Inr (concat (map (\<lambda>d. slice_to (filter (\<lambda>r. requested_difficulty r = d) ?all) n) ds))"
    using dd by (simp cong: map_cong)
  have sl: "slice_to (filter (\<lambda>r. requested_difficulty r = d) ?all) n
      = take (nat n) (filter (\<lambda>r. requested_difficulty r = d) ?all)" for d
  proof (cases "0 \<le> n")
    case True
    then show ?thesis by (simp add: slice_to_def)
  next
    case False
    then have "tasks = []" using make_tasks_nonpositive[OF _ mt] by simp
    with len have "outs = []" by simp
    then show ?thesis by (simp add: slice_to_def)
  qed
  have "top_level env w b ds n =
      (collect_final ?dd n ds, snd (run_chunks env w b tasks))"
    using Inr m by (simp add: top_level_def mt Let_def split_beta)
  then show ?thesis using Inr c by (simp add: spec_top_level_def sl)
qed

lemma top_level_no_tasks: "make_tasks ds n = Inl e \<Longrightarrow> top_level env w b ds n = (Inl e, w)"
  by (simp add: top_level_def)

lemma top_level_call_pos:
  assumes mt: "make_tasks ds n = Inr tasks"
  shows "call_pos (snd (top_level env w b ds n)) = call_pos w + length tasks"
  by (simp add: top_level_eq[OF mt] run_chunks_call_pos split: sum.splits)

lemma top_level_fails:
  assumes mt: "make_tasks ds n = Inr tasks"
  shows "(\<exists>e. fst (top_level env w b ds n) = Inl e) \<longleftrightarrow>
     (\<exists>k e. call_pos w \<le> k \<and> k < call_pos w + length tasks \<and> reply_tape env k = Inl e)"
proof -
  let ?results = "fst (run_chunks env w b tasks)"
  have "(\<exists>e. fst (top_level env w b ds n) = Inl e) \<longleftrightarrow> (\<exists>e. gather ?results = Inl e)"
    by (auto simp: top_level_eq[OF mt] split: sum.splits)
  also have "\<dots> \<longleftrightarrow> (\<exists>e. Inl e \<in> set ?results)" by (rule gather_Inl_iff)
  also have "\<dots> \<longleftrightarrow> (\<exists>i e. i < length tasks \<and> ?results ! i = Inl e)"
    using run_chunks_length[of env w b tasks] by (metis in_set_conv_nth)
  also have "\<dots> \<longleftrightarrow> (\<exists>i e. i < length tasks \<and> reply_tape env (call_pos w + i) = Inl e)"
    using run_chunks_nth[of _ tasks env w b] by blast
  also have "\<dots> \<longleftrightarrow> (\<exists>k e. call_pos w \<le> k \<and> k < call_pos w + length tasks \<and>
        reply_tape env k = Inl e)"
  proof
    assume "\<exists>i e. i < length tasks \<and> reply_tape env (call_pos w + i) = Inl e"
    then obtain i e where "i < length tasks" "reply_tape env (call_pos w + i) = Inl e" by blast
    then have "call_pos w \<le> call_pos w + i \<and> call_pos w + i < call_pos w + length tasks \<and>
        reply_tape env (call_pos w + i) = Inl e" by simp
    then show "\<exists>k e. call_pos w \<le> k \<and> k < call_pos w + length tasks \<and>
        reply_tape env k = Inl e" by blast
  next
    assume "\<exists>k e. call_pos w \<le> k \<and> k < call_pos w + length tasks \<and>
        reply_tape env k = Inl e"
    then obtain k e where k: "call_pos w \<le> k" "k < call_pos w + length tasks"
        "reply_tape env k = Inl e" by blast
    then have "k - call_pos w < length tasks \<and>
        reply_tape env (call_pos w + (k - call_pos w)) = Inl e" by simp
    then show "\<exists>i e. i < length tasks \<and> reply_tape env (call_pos w + i) = Inl e" by blast
  qed
  finally show ?thesis .
qed

lemma top_level_error_origin:
  assumes mt: "make_tasks ds n = Inr tasks"
    and "fst (top_level env w b ds n) = Inl e"
  shows "\<exists>k. call_pos w \<le> k \<and> k < call_pos w + length tasks \<and> reply_tape env k = Inl e"
proof -
  let ?results = "fst (run_chunks env w b tasks)"
  from assms(2) have "gather ?results = Inl e"
    by (auto simp: top_level_eq[OF mt] split: sum.splits)
  then have "Inl e \<in> set ?results" by (rule gather_Inl_mem)
  then obtain i where i: "i < length tasks" "?results ! i = Inl e"
    using run_chunks_length[of env w b tasks] by (metis in_set_conv_nth)
  with run_chunks_nth[OF i(1), of env w b e] have "reply_tape env (call_pos w + i) = Inl e"
    by blast
  with i(1) have "call_pos w \<le> call_pos w + i \<and> call_pos w + i < call_pos w + length tasks \<and>
        reply_tape env (call_pos w + i) = Inl e" by simp
  then show ?thesis by blast
qed

lemma top_level_fails_as_service:
  "fails_as_service env {e. make_tasks ds n = Inl e} w (top_level env w b ds n)"
proof (cases "make_tasks ds n")
  case (Inl e)
  then show ?thesis by (simp add: top_level_no_tasks fails_as_service_def)
next
  case (Inr tasks)
  show ?thesis
    unfolding fails_as_service_def
    using top_level_fails[OF Inr, of env w b] top_level_error_origin[OF Inr, of env w b]
    by (simp add: top_level_call_pos[OF Inr])
qed

lemma fails_as_service_seq:
  assumes first: "fails_as_service env other w (Inr x, w1)"
    and second: "fails_as_service env other w1 (r2, w2)"
    and same: "\<And>e. r = Inl e \<longleftrightarrow> r2 = Inl e"
  shows "fails_as_service env other w (r, w2)"
  unfolding fails_as_service_def
proof (intro conjI allI impI)
  from first second show "call_pos w \<le> call_pos (snd (r, w2))"
    by (simp add: fails_as_service_def)
next
  assume "\<exists>k e. call_pos w \<le> k \<and> k < call_pos (snd (r, w2)) \<and> reply_tape env k = Inl e"
  then obtain k e where k: "call_pos w \<le> k" "k < call_pos w2" "reply_tape env k = Inl e"
    by auto
  have "\<not> k < call_pos w1"
    using first k by (auto simp: fails_as_service_def)
  then have "call_pos w1 \<le> k" by simp
  with second k obtain e' where "r2 = Inl e'" by (auto simp: fails_as_service_def)
  then show "\<exists>e. fst (r, w2) = Inl e" using same by auto
next
  fix e assume "fst (r, w2) = Inl e"
  then have "r2 = Inl e" using same by simp
  with second consider
    (call) k where "call_pos w1 \<le> k" "k < call_pos w2" "reply_tape env k = Inl e"
    | (other) "e \<in> other"
    by (auto simp: fails_as_service_def)
  then show "(\<exists>k. call_pos w \<le> k \<and> k < call_pos (snd (r, w2)) \<and> reply_tape env k = Inl e) \<or>
      e \<in> other"
  proof cases
    case call
    moreover from first have "call_pos w \<le> call_pos w1" by (simp add: fails_as_service_def)
    ultimately have "call_pos w \<le> k \<and> k < call_pos (snd (r, w2)) \<and> reply_tape env k = Inl e"
      by simp
    then show ?thesis by blast
  next
    case other
    then show ?thesis by simp
  qed
qed

lemma fails_as_service_Inr_refl: "fails_as_service env other w (Inr x, w)"
  by (simp add: fails_as_service_def)

lemma recurse_fails_as_service:
  assumes pp: "\<And>w v. fails_as_service env other w (process_prompt env w v ds n sd)"
  shows "fails_as_service env other w (recurse env w vs ds n sd)"
proof (induction vs arbitrary: w)
  case Nil
  show ?case by (simp add: fails_as_service_Inr_refl)
next
  case (Cons v vs)
  obtain r1 w1 where p1: "process_prompt env w (variant v) ds n sd = (r1, w1)"
    by (cases "process_prompt env w (variant v) ds n sd")
  have f1: "fails_as_service env other w (r1, w1)" using pp[of w "variant v"] p1 by simp
  show ?case
  proof (cases r1)
    case (Inl e)
    then show ?thesis using p1 f1 by simp
  next
    case (Inr sub)
    obtain r2 w2 where p2: "recurse env w1 vs ds n sd = (r2, w2)"
      by (cases "recurse env w1 vs ds n sd")
    have f2: "fails_as_service env other w1 (r2, w2)" using Cons.IH[of w1] p2 by simp
    have "fails_as_service env other w
        (case r2 of Inl e \<Rightarrow> Inl e | Inr others \<Rightarrow> Inr (sub @ others), w2)"
      by (rule fails_as_service_seq[OF f1[unfolded Inr] f2]) (auto split: sum.splits)
    moreover have "recurse env w (v # vs) ds n sd =
        (case r2 of Inl e \<Rightarrow> Inl e | Inr others \<Rightarrow> Inr (sub @ others), w2)"
      using p1 p2 Inr by (simp split: sum.splits)
    ultimately show ?thesis by simp
  qed
qed

lemma process_prompt_fails_as_service:
  "fails_as_service env {e. make_tasks ds n = Inl e} w (process_prompt env w b ds n depth)"
proof (induction "nat depth" arbitrary: depth w b)
  case 0
  then have d: "\<not> depth > 0" by simp
  obtain r1 w1 where t: "top_level env w b ds n = (r1, w1)"
    by (cases "top_level env w b ds n")
  have "process_prompt env w b ds n depth = (r1, w1)"
    using t d by (cases r1) (simp_all add: process_prompt.simps)
  then show ?case using top_level_fails_as_service[of env ds n w b] t by simp
next
  case (Suc k)
  then have d: "depth > 0" and k: "k = nat (depth - 1)" by linarith+
  obtain r1 w1 where t: "top_level env w b ds n = (r1, w1)"
    by (cases "top_level env w b ds n")
  have f1: "fails_as_service env {e. make_tasks ds n = Inl e} w (r1, w1)"
    using top_level_fails_as_service[of env ds n w b] t by simp
  show ?case
  proof (cases r1)
    case (Inl e)
    then have "process_prompt env w b ds n depth = (r1, w1)"
      using t by (simp add: process_prompt.simps)
    then show ?thesis using f1 by simp
  next
    case (Inr final)
    obtain r2 w2 where p2: "recurse env w1 final ds n (depth - 1) = (r2, w2)"
      by (cases "recurse env w1 final ds n (depth - 1)")
    have "fails_as_service env {e. make_tasks ds n = Inl e} w1
        (recurse env w1 final ds n (depth - 1))"
      by (rule recurse_fails_as_service) (rule Suc.hyps(1)[OF k])
    then have f2: "fails_as_service env {e. make_tasks ds n = Inl e} w1 (r2, w2)"
      using p2 by simp
    have "fails_as_service env {e. make_tasks ds n = Inl e} w
        (case r2 of Inl e \<Rightarrow> Inl e | Inr recursive \<Rightarrow> Inr (final @ recursive), w2)"
      by (rule fails_as_service_seq[OF f1[unfolded Inr] f2]) (auto split: sum.splits)
    moreover have "process_prompt env w b ds n depth =
        (case r2 of Inl e \<Rightarrow> Inl e | Inr recursive \<Rightarrow> Inr (final @ recursive), w2)"
      using t p2 Inr d by (simp add: process_prompt.simps split: sum.splits)
    ultimately show ?thesis by simp
  qed
qed

lemma generate_variant_chunk_run:
  "generate_variant_chunk env w prompt difficulty count =
     (case choose_transforms env w difficulty of
        (Inl e, w2) \<Rightarrow> (Inl e, w2)
      | (Inr chosen, w2) \<Rightarrow>
          (case reply_tape env (call_pos w2) of
             Inl e \<Rightarrow> (Inl e, w2\<lparr>rand_pos := Suc (Suc (rand_pos w2)), call_pos := Suc (call_pos w2)\<rparr>)
           | Inr response_text \<Rightarrow>
               (let (processed, w6) =
                      process_all env
                        (w2\<lparr>rand_pos := Suc (Suc (rand_pos w2)), call_pos := Suc (call_pos w2)\<rparr>)
                        prompt difficulty
                        (map (\<lambda>v. v\<lparr>vd_transformations_used := Some chosen\<rparr>)
                           (parse_variants response_text))
                in (Inr (List.map_filter id processed), w6))))"
proof (cases "choose_transforms env w difficulty")
  case (Pair c w2)
  show ?thesis
  proof (cases c)
    case (Inl e)
    with Pair show ?thesis by (simp add: generate_variant_chunk_def)
  next
    case (Inr chosen)
    let ?opts = "template_options prompt difficulty count (join (str '', '') chosen)
                 (join (str '', '') PERSONAS)"
    let ?w3 = "w2\<lparr>rand_pos := Suc (rand_pos w2)\<rparr>"
    have "?opts \<noteq> []" by (simp add: template_options_def)
    from random_choice_nonempty[OF this, of env w2] have
      t: "get_random_prompt_template env w2 prompt difficulty count (join (str '', '') chosen)
          (join (str '', '') PERSONAS)
        = (Inr (?opts ! (random_tape env (rand_pos w2) mod length ?opts)), ?w3)"
      by (simp add: get_random_prompt_template_def)
    have tmp: "random_choice env ?w3 [0.8, 1.0, 1.2, 1.4 :: real]
        = (Inr ([0.8, 1.0, 1.2, 1.4 :: real] ! (random_tape env (rand_pos ?w3)
             mod length [0.8, 1.0, 1.2, 1.4 :: real])), ?w3\<lparr>rand_pos := Suc (rand_pos ?w3)\<rparr>)"
      by (rule random_choice_nonempty) simp
    show ?thesis
      unfolding generate_variant_chunk_def Pair Inr Let_def prod.case sum.case t tmp
        generate_text_def
      by (simp add: split_beta split: sum.splits)
  qed
qed

lemma sample_loop_numeral:
  "sample_loop env w pool (numeral k) = sample_loop env w pool (Suc (pred_numeral k))"
  by (simp add: numeral_eq_Suc)

lemmas run_eval_defs =
  generate_variant_chunk_run choose_transforms_def random_choice_def randbelow_def
  random_sample_def sample_loop_numeral process_single_variant_def utcnow_def
  isoformat_def zfill_def decimal_small decimal_step replicate_numeral_unfold
  example_clock_def top_level_def chunk_counts_small
  buffer_multiplier_def init_dict_def slice_to_def process_prompt.simps
  map_filter_simps Let_def split_beta

lemma parse_one_variant_reply:
  "parse_variants one_variant_reply =
     [\<lparr>vd_reasoning = Some (str ''foo''), vd_variant = Some (str ''bar''),
       vd_transformations_used = None\<rparr>]"
  by (simp add: one_variant_reply_def parser_eval_defs)

lemma process_prompt_shallow:
  assumes "recursion_depth \<le> 0"
  shows "process_prompt env w b ds n recursion_depth = top_level env w b ds n"
proof (cases "top_level env w b ds n")
  case (Pair r w1)
  with assms show ?thesis by (cases r) (simp_all add: process_prompt.simps)
qed

lemma process_prompt_Inr:
  assumes "process_prompt env w b ds n depth = (Inr rs, w')"
  shows "\<exists>tasks outs w1 recursive.
    make_tasks ds n = Inr tasks \<and>
    gather (fst (run_chunks env w b tasks)) = Inr outs \<and>
    top_level env w b ds n = (Inr (spec_top_level outs ds n), w1) \<and>
    rs = spec_top_level outs ds n @ recursive \<and>
    (depth \<le> 0 \<longrightarrow> recursive = []) \<and>
    (depth > 0 \<longrightarrow>
       recurse env w1 (spec_top_level outs ds n) ds n (depth - 1) = (Inr recursive, w'))"
proof -
  obtain r1 w1 where t: "top_level env w b ds n = (r1, w1)"
    by (cases "top_level env w b ds n")
  from assms t obtain final where r1: "r1 = Inr final"
    by (cases r1) (simp_all add: process_prompt.simps)
  from t r1 obtain tasks where mt: "make_tasks ds n = Inr tasks"
    by (cases "make_tasks ds n") (simp_all add: top_level_no_tasks)
  from t r1 obtain outs where
    g: "gather (fst (run_chunks env w b tasks)) = Inr outs"
    and f: "final = spec_top_level outs ds n"
    by (auto simp: top_level_eq[OF mt] split: sum.splits)
  show ?thesis
  proof (cases "depth > 0")
    case False
    with assms t r1 have "rs = final" by (simp add: process_prompt.simps)
    with mt g t r1 f False show ?thesis
      by (intro exI[of _ tasks] exI[of _ outs] exI[of _ w1] exI[of _ "[]"]) simp
  next
    case True
    obtain r2 w2 where p2: "recurse env w1 final ds n (depth - 1) = (r2, w2)"
      by (cases "recurse env w1 final ds n (depth - 1)")
    from assms t r1 True p2 obtain recursive where
      "r2 = Inr recursive" "rs = final @ recursive" "w2 = w'"
      by (cases r2) (simp_all add: process_prompt.simps)
    with mt g t r1 f True p2 show ?thesis
      by (intro exI[of _ tasks] exI[of _ outs] exI[of _ w1] exI[of _ recursive]) simp
  qed
qed

lemma recurse_Inr:
  assumes "recurse env w vs ds n sd = (Inr recursive, w')"
  shows "\<exists>subs. recursive = concat subs \<and>
     list_all2 (\<lambda>parent sub. \<exists>w1 w2.
        process_prompt env w1 (variant parent) ds n sd = (Inr sub, w2)) vs subs"
  using assms
proof (induction vs arbitrary: w recursive)
  case Nil
  then show ?case by simp
next
  case (Cons v vs)
  obtain r1 w1 where p1: "process_prompt env w (variant v) ds n sd = (r1, w1)"
    by (cases "process_prompt env w (variant v) ds n sd")
  from Cons.prems p1 obtain sub where r1: "r1 = Inr sub" by (cases r1) simp_all
  obtain r2 w2 where p2: "recurse env w1 vs ds n sd = (r2, w2)"
    by (cases "recurse env w1 vs ds n sd")
  from Cons.prems p1 r1 p2 obtain others where r2: "r2 = Inr others"
    and rec: "recursive = sub @ others" and w2: "w2 = w'"
    by (cases r2) simp_all
  from Cons.IH[of w1 others] p2 r2 w2 obtain subs where
    s: "others = concat subs"
       "list_all2 (\<lambda>parent sub. \<exists>w1 w2.
          process_prompt env w1 (variant parent) ds n sd = (Inr sub, w2)) vs subs"
    by auto
  have "recursive = concat (sub # subs)" using rec s(1) by simp
  moreover have "list_all2 (\<lambda>parent sub. \<exists>w1 w2.
        process_prompt env w1 (variant parent) ds n sd = (Inr sub, w2)) (v # vs) (sub # subs)"
    using s(2) p1 r1 by auto
  ultimately show ?case by blast
qed



lemma distinct_groups:
  assumes "distinct (map f A)" and "distinct ds"
  shows "distinct (map f (concat (map (\<lambda>d. take k (filter (\<lambda>r. g r = d) A)) ds)))"
  using assms(2)
proof (induction ds)
  case Nil
  then show ?case by simp
next
  case (Cons d ds)
  let ?grp = "\<lambda>d. take k (filter (\<lambda>r. g r = d) A)"
  have inj: "inj_on f (set A)" using assms(1) by (simp add: distinct_map)
  have "distinct A" using assms(1) by (simp add: distinct_map)
  then have "distinct (?grp d)" by simp
  moreover have "set (?grp d) \<subseteq> set A" by (auto dest: in_set_takeD)
  ultimately have head: "distinct (map f (?grp d))"
    using inj by (simp add: distinct_map inj_on_subset)
  have disj: "f x \<noteq> f y" if "x \<in> set (?grp d)" "y \<in> set (concat (map ?grp ds))" for x y
  proof
    assume eq: "f x = f y"
    from that(1) have x: "x \<in> set A" "g x = d" by (auto dest: in_set_takeD)
    from that(2) obtain d' where d': "d' \<in> set ds" "y \<in> set (?grp d')" by auto
    then have y: "y \<in> set A" "g y = d'" by (auto dest: in_set_takeD)
    from inj eq x(1) y(1) have "x = y" by (auto dest: inj_onD)
    with x(2) y(2) d'(1) Cons.prems show False by auto
  qed
  from Cons have "distinct (map f (concat (map ?grp ds)))" by simp
  with head disj show ?case by auto
qed

lemma count_groups:
  assumes "distinct ds"
  shows "length (filter (\<lambda>r. g r = d) (concat (map (\<lambda>d'. take k (filter (\<lambda>r. g r = d') A)) ds)))
           \<le> k"
  using assms
proof (induction ds)
  case Nil
  then show ?case by simp
next
  case (Cons d' ds)
  let ?grp = "\<lambda>d'. take k (filter (\<lambda>r. g r = d') A)"
  have other: "filter (\<lambda>r. g r = d) (?grp e) = []" if "e \<noteq> d" for e
    using that by (auto simp: filter_empty_conv dest: in_set_takeD)
  show ?case
  proof (cases "d' = d")
    case True
    with Cons.prems have "d \<notin> set ds" by simp
    then have "filter (\<lambda>r. g r = d) (concat (map ?grp ds)) = []"
      using other by (induction ds) auto
    moreover have "length (filter (\<lambda>r. g r = d) (?grp d)) \<le> length (?grp d)"
      by (rule length_filter_le)
    moreover have "length (?grp d) \<le> k" by simp
    ultimately show ?thesis using True by simp
  next
    case False
    with other[of d'] Cons show ?thesis by simp
  qed
qed

text \<open>
  Runs of the model, evaluated: one chunk at depth 0; the same with one level of
  recursion; a difficulty list that names one difficulty twice; a negative count; two
  chunks of which the second call of the service fails; and two difficulties whose
  chunks both return the variant text \<^verbatim>\<open>A\<close>.
\<close>

lemma run_single:
  "process_prompt (example_env (\<lambda>k. 0) (\<lambda>k. Inr one_variant_reply)) start (str ''p'')
      [str ''easier''] 1 0
   = (Inr [example_record (str ''p'') (str ''2025-01-02T03:04:05.000006Z'')],
      \<lparr>rand_pos = 6, call_pos = 1, clock_pos = 1\<rparr>)"
  by (simp add: run_eval_defs world_eval_defs parse_one_variant_reply example_record_def)

lemma run_recursive:
  "process_prompt (example_env (\<lambda>k. 0) (\<lambda>k. Inr one_variant_reply)) start (str ''p'')
      [str ''easier''] 1 1
   = (Inr [example_record (str ''p'') (str ''2025-01-02T03:04:05.000006Z''),
           example_record (str ''bar'') (str ''2025-01-02T03:04:05.000007Z'')],
      \<lparr>rand_pos = 12, call_pos = 2, clock_pos = 2\<rparr>)"
  by (simp add: run_eval_defs world_eval_defs parse_one_variant_reply example_record_def)

lemma run_repeated_difficulty:
  "process_prompt (example_env (\<lambda>k. 0) (\<lambda>k. Inr one_variant_reply)) start (str ''p'')
      [str ''easier'', str ''easier''] 1 0
   = (Inr [example_record (str ''p'') (str ''2025-01-02T03:04:05.000006Z''),
           example_record (str ''p'') (str ''2025-01-02T03:04:05.000006Z'')],
      \<lparr>rand_pos = 12, call_pos = 2, clock_pos = 2\<rparr>)"
  by (simp add: run_eval_defs world_eval_defs parse_one_variant_reply example_record_def)

lemma run_negative_count:
  "process_prompt (example_env (\<lambda>k. 0) (\<lambda>k. Inr one_variant_reply)) start (str ''p'')
      [str ''easier''] (- 1) 0
   = (Inr [], start)"
  by (simp add: run_eval_defs world_eval_defs parse_one_variant_reply example_record_def)

lemma run_failed_call:
  "process_prompt (example_env (\<lambda>k. 0)
        (\<lambda>k. if k = 1 then Inl GenerationError else Inr one_variant_reply)) start (str ''p'')
      [str ''easier'', str ''harder''] 1 0
   = (Inl GenerationError, \<lparr>rand_pos = 12, call_pos = 2, clock_pos = 1\<rparr>)"
  by (simp add: run_eval_defs world_eval_defs parse_one_variant_reply example_record_def)

lemma parse_reply_a_b:
  "parse_variants reply_a_b =
     [\<lparr>vd_reasoning = Some (str ''r1''), vd_variant = Some (str ''A''),
       vd_transformations_used = None\<rparr>,
      \<lparr>vd_reasoning = Some (str ''r2''), vd_variant = Some (str ''B''),
       vd_transformations_used = None\<rparr>]"
  by (simp add: reply_a_b_def parser_eval_defs)

lemma parse_reply_a_c:
  "parse_variants reply_a_c =
     [\<lparr>vd_reasoning = Some (str ''r3''), vd_variant = Some (str ''A''),
       vd_transformations_used = None\<rparr>,
      \<lparr>vd_reasoning = Some (str ''r4''), vd_variant = Some (str ''C''),
       vd_transformations_used = None\<rparr>]"
  by (simp add: reply_a_c_def parser_eval_defs)

lemmas two_difficulties_eval_defs =
  run_eval_defs world_eval_defs parse_reply_a_b parse_reply_a_c alternating_replies_def
  harder_a_def harder_b_def easier_a_def easier_c_def harder_record_def easier_record_def

lemma top_level_single:
  "top_level (example_env (\<lambda>k. 0) (\<lambda>k. Inr one_variant_reply)) start (str ''p'')
      [str ''easier''] 1
   = (Inr [example_record (str ''p'') (str ''2025-01-02T03:04:05.000006Z'')],
      \<lparr>rand_pos = 6, call_pos = 1, clock_pos = 1\<rparr>)"
  by (simp add: run_eval_defs world_eval_defs parse_one_variant_reply example_record_def)

lemma make_tasks_two_difficulties:
  "make_tasks [str ''harder'', str ''easier''] 1 = Inr [(str ''harder'', 3), (str ''easier'', 3)]"
  by (simp add: chunk_counts_small buffer_multiplier_def)

lemma run_chunks_two_difficulties:
  "run_chunks (example_env (\<lambda>k. 0) alternating_replies) start (str ''p'')
      [(str ''harder'', 3), (str ''easier'', 3)]
   = ([Inr [harder_a, harder_b], Inr [easier_a, easier_c]],
      \<lparr>rand_pos = 12, call_pos = 2, clock_pos = 4\<rparr>)"
  by (simp add: two_difficulties_eval_defs)

lemma top_level_two_difficulties:
  "top_level (example_env (\<lambda>k. 0) alternating_replies) start (str ''p'')
      [str ''harder'', str ''easier''] 1
   = (Inr [harder_a, easier_c], \<lparr>rand_pos = 12, call_pos = 2, clock_pos = 4\<rparr>)"
  by (simp add: two_difficulties_eval_defs)

lemma run_two_difficulties:
  "process_prompt (example_env (\<lambda>k. 0) alternating_replies) start (str ''p'')
      [str ''harder'', str ''easier''] 1 0
   = (Inr [harder_a, easier_c], \<lparr>rand_pos = 12, call_pos = 2, clock_pos = 4\<rparr>)"
  by (simp add: process_prompt_shallow top_level_two_difficulties)

lemma merge_two_difficulties:
  "first_by variant (concat [[harder_a, harder_b], [easier_a, easier_c]])
     = [harder_a, harder_b, easier_c]"
  "spec_top_level [[harder_a, harder_b], [easier_a, easier_c]] [str ''harder'', str ''easier''] 1
     = [harder_a, easier_c]"
  by (simp_all add: spec_top_level_def harder_a_def harder_b_def easier_a_def easier_c_def
      harder_record_def easier_record_def str_def)

subsection \<open>The claims about the orchestrator\<close>

text \<open>
  Claim C8. A failure of the service is not caught: the chunk generator fails exactly
  when the reply to its call is a failure, with that failure; and a run of
  \<open>process_prompt\<close>, at any recursion depth, in which any call of the service fails
  returns a failure and no records. Conversely a run fails only with the failure of one
  of its calls, or, before any call is made, with the failure of the float division
  that gives the number of chunks.
\<close>

theorem service_failure_aborts_run:
  assumes "process_prompt env w base_prompt difficulties num_variants recursion_depth = (r, w')"
  shows "(fst (generate_variant_chunk env w base_prompt difficulty count) = Inl e
            \<longleftrightarrow> reply_tape env (call_pos w) = Inl e) \<and>
         ((\<exists>k e. call_pos w \<le> k \<and> k < call_pos w' \<and> reply_tape env k = Inl e)
            \<longrightarrow> (\<exists>e. r = Inl e)) \<and>
         (\<forall>e. r = Inl e \<longrightarrow>
            (\<exists>k. call_pos w \<le> k \<and> k < call_pos w' \<and> reply_tape env k = Inl e) \<or>
            make_tasks difficulties num_variants = Inl e)"
  using process_prompt_fails_as_service
          [of env difficulties num_variants w base_prompt recursion_depth]
    assms chunk_fail_iff[of env w base_prompt difficulty count e]
  by (simp add: fails_as_service_def)

theorem service_failure_aborts_run_witness:
  "process_prompt (example_env (\<lambda>k. 0)
        (\<lambda>k. if k = 1 then Inl GenerationError else Inr one_variant_reply)) start (str ''p'')
      [str ''easier'', str ''harder''] 1 0
   = (Inl GenerationError, \<lparr>rand_pos = 12, call_pos = 2, clock_pos = 1\<rparr>) \<and>
   call_pos start \<le> 1 \<and> 1 < call_pos \<lparr>rand_pos = 12, call_pos = 2, clock_pos = 1\<rparr> \<and>
   reply_tape (example_env (\<lambda>k. 0)
        (\<lambda>k. if k = 1 then Inl GenerationError else Inr one_variant_reply)) 1
     = Inl GenerationError"
proof -
  from service_failure_aborts_run [OF run_failed_call] show ?thesis
    using run_failed_call by (simp add: example_env_def start_def)
qed

text \<open>
  Claim C6. The returned list is the top-level records followed by the recursively
  generated ones. The top-level records are grouped by difficulty in the order of the
  difficulty list, each group being the first \<open>num_variants\<close> records of that difficulty
  among the accepted records, in the order of acceptance (the order of the chunks and,
  within a chunk, of its records). With a positive depth the rest is, parent by parent in
  the order of the top-level records, the result of a run on the parent's variant text
  with the depth lowered by one; otherwise there is no rest.
\<close>

theorem process_prompt_order:
  assumes "process_prompt env w base_prompt difficulties num_variants recursion_depth
             = (Inr results, w')"
  shows "\<exists>tasks chunk_outputs subs.
     make_tasks difficulties num_variants = Inr tasks \<and>
     gather (fst (run_chunks env w base_prompt tasks)) = Inr chunk_outputs \<and>
     results = spec_top_level chunk_outputs difficulties num_variants @ concat subs \<and>
     (if recursion_depth > 0
      then list_all2 (\<lambda>parent sub. \<exists>w1 w2.
             process_prompt env w1 (variant parent) difficulties num_variants
               (recursion_depth - 1) = (Inr sub, w2))
             (spec_top_level chunk_outputs difficulties num_variants) subs
      else subs = [])"
proof -
  from process_prompt_Inr[OF assms] obtain tasks outs w1 recursive where
    mt: "make_tasks difficulties num_variants = Inr tasks" and
    g: "gather (fst (run_chunks env w base_prompt tasks)) = Inr outs" and
    rs: "results = spec_top_level outs difficulties num_variants @ recursive" and
    shallow: "recursion_depth \<le> 0 \<longrightarrow> recursive = []" and
    deep: "recursion_depth > 0 \<longrightarrow>
      recurse env w1 (spec_top_level outs difficulties num_variants) difficulties num_variants
        (recursion_depth - 1) = (Inr recursive, w')"
    by blast
  show ?thesis
  proof (cases "recursion_depth > 0")
    case True
    from deep True recurse_Inr obtain subs where
      "recursive = concat subs"
      "list_all2 (\<lambda>parent sub. \<exists>w1 w2.
             process_prompt env w1 (variant parent) difficulties num_variants
               (recursion_depth - 1) = (Inr sub, w2))
             (spec_top_level outs difficulties num_variants) subs"
      by blast
    with mt g rs True show ?thesis
      by (intro exI[of _ tasks] exI[of _ outs] exI[of _ subs]) simp
  next
    case False
    then have "recursive = []" using shallow by simp
    with mt g rs False show ?thesis
      by (intro exI[of _ tasks] exI[of _ outs] exI[of _ "[]"]) simp
  qed
qed

theorem process_prompt_order_witness:
  "process_prompt (example_env (\<lambda>k. 0) (\<lambda>k. Inr one_variant_reply)) start (str ''p'')
      [str ''easier''] 1 1
   = (Inr [example_record (str ''p'') (str ''2025-01-02T03:04:05.000006Z''),
           example_record (str ''bar'') (str ''2025-01-02T03:04:05.000007Z'')],
      \<lparr>rand_pos = 12, call_pos = 2, clock_pos = 2\<rparr>) \<and>
   (\<exists>chunk_outputs subs.
      [example_record (str ''p'') (str ''2025-01-02T03:04:05.000006Z''),
       example_record (str ''bar'') (str ''2025-01-02T03:04:05.000007Z'')]
        = spec_top_level chunk_outputs [str ''easier''] 1 @ concat subs \<and>
      list_all2 (\<lambda>parent sub. \<exists>w1 w2.
             process_prompt (example_env (\<lambda>k. 0) (\<lambda>k. Inr one_variant_reply)) w1
               (variant parent) [str ''easier''] 1 0 = (Inr sub, w2))
             (spec_top_level chunk_outputs [str ''easier''] 1) subs)"
proof -
  from process_prompt_order [OF run_recursive] show ?thesis
    using run_recursive by auto
qed

text \<open>
  Claim C1, as stated: no two records of the returned list share a variant text, for
  any recursion depth and any difficulty list. This fails in two ways. A recursive run
  starts with a fresh set of seen texts, so with depth 1 the child of a record can carry
  the text of its parent. And a difficulty named twice in the list has its records
  returned twice.
\<close>

theorem global_uniqueness_counterexample:
  "process_prompt (example_env (\<lambda>k. 0) (\<lambda>k. Inr one_variant_reply)) start (str ''p'')
      [str ''easier''] 1 1
   = (Inr [example_record (str ''p'') (str ''2025-01-02T03:04:05.000006Z''),
           example_record (str ''bar'') (str ''2025-01-02T03:04:05.000007Z'')],
      \<lparr>rand_pos = 12, call_pos = 2, clock_pos = 2\<rparr>) \<and>
   \<not> distinct (map variant
          [example_record (str ''p'') (str ''2025-01-02T03:04:05.000006Z''),
           example_record (str ''bar'') (str ''2025-01-02T03:04:05.000007Z'')]) \<and>
   process_prompt (example_env (\<lambda>k. 0) (\<lambda>k. Inr one_variant_reply)) start (str ''p'')
      [str ''easier'', str ''easier''] 1 0
   = (Inr [example_record (str ''p'') (str ''2025-01-02T03:04:05.000006Z''),
           example_record (str ''p'') (str ''2025-01-02T03:04:05.000006Z'')],
      \<lparr>rand_pos = 12, call_pos = 2, clock_pos = 2\<rparr>) \<and>
   \<not> distinct (map variant
          [example_record (str ''p'') (str ''2025-01-02T03:04:05.000006Z''),
           example_record (str ''p'') (str ''2025-01-02T03:04:05.000006Z'')])"
  using run_recursive run_repeated_difficulty by (simp add: example_record_def)

text \<open>
  Claim C1, amended. For a difficulty list without repetition, the top-level records of
  a run (all of the returned list when the depth is not positive) have pairwise
  different variant texts, and each is the first occurrence of its text among the
  records of all chunks of that call, in submission order, across difficulties.
\<close>

theorem top_level_variants_unique:
  assumes "process_prompt env w base_prompt difficulties num_variants recursion_depth
             = (Inr results, w')"
    and "distinct difficulties"
  shows "\<exists>tasks chunk_outputs recursive.
     make_tasks difficulties num_variants = Inr tasks \<and>
     gather (fst (run_chunks env w base_prompt tasks)) = Inr chunk_outputs \<and>
     results = spec_top_level chunk_outputs difficulties num_variants @ recursive \<and>
     (recursion_depth \<le> 0 \<longrightarrow> recursive = [] \<and> distinct (map variant results)) \<and>
     distinct (map variant (spec_top_level chunk_outputs difficulties num_variants)) \<and>
     set (spec_top_level chunk_outputs difficulties num_variants)
       \<subseteq> set (first_by variant (concat chunk_outputs))"
proof -
  from process_prompt_Inr[OF assms(1)] obtain tasks outs w1 recursive where
    mt: "make_tasks difficulties num_variants = Inr tasks" and
    g: "gather (fst (run_chunks env w base_prompt tasks)) = Inr outs" and
    rs: "results = spec_top_level outs difficulties num_variants @ recursive" and
    shallow: "recursion_depth \<le> 0 \<longrightarrow> recursive = []"
    by blast
  have d: "distinct (map variant (spec_top_level outs difficulties num_variants))"
    unfolding spec_top_level_def
    by (rule distinct_groups[OF distinct_first_by assms(2)])
  have s: "set (spec_top_level outs difficulties num_variants)
       \<subseteq> set (first_by variant (concat outs))"
    by (auto simp: spec_top_level_def dest: in_set_takeD)
  from mt g rs shallow d s show ?thesis
    by (intro exI[of _ tasks] exI[of _ outs] exI[of _ recursive]) auto
qed

text \<open>
  An instance in which the removal of duplicates acts across difficulties: the chunk of
  \<^verbatim>\<open>harder\<close> returns the texts \<^verbatim>\<open>A\<close> and \<^verbatim>\<open>B\<close>, the chunk of \<^verbatim>\<open>easier\<close> the texts \<^verbatim>\<open>A\<close> and
  \<^verbatim>\<open>C\<close>. The second \<^verbatim>\<open>A\<close> is dropped although it is the first record of its difficulty,
  and with one variant per difficulty the run returns \<^verbatim>\<open>A\<close> for \<^verbatim>\<open>harder\<close> and \<^verbatim>\<open>C\<close> for
  \<^verbatim>\<open>easier\<close>.
\<close>

theorem top_level_variants_unique_witness:
  "process_prompt (example_env (\<lambda>k. 0) alternating_replies) start (str ''p'')
      [str ''harder'', str ''easier''] 1 0
   = (Inr [harder_a, easier_c], \<lparr>rand_pos = 12, call_pos = 2, clock_pos = 4\<rparr>) \<and>
   distinct [str ''harder'', str ''easier''] \<and>
   (\<exists>tasks chunk_outputs recursive.
      make_tasks [str ''harder'', str ''easier''] 1 = Inr tasks \<and>
      gather (fst (run_chunks (example_env (\<lambda>k. 0) alternating_replies) start (str ''p'')
                     tasks)) = Inr chunk_outputs \<and>
      [harder_a, easier_c]
        = spec_top_level chunk_outputs [str ''harder'', str ''easier''] 1 @ recursive \<and>
      recursive = [] \<and>
      distinct (map variant (spec_top_level chunk_outputs [str ''harder'', str ''easier''] 1)) \<and>
      set (spec_top_level chunk_outputs [str ''harder'', str ''easier''] 1)
        \<subseteq> set (first_by variant (concat chunk_outputs))) \<and>
   make_tasks [str ''harder'', str ''easier''] 1
     = Inr [(str ''harder'', 3), (str ''easier'', 3)] \<and>
   gather (fst (run_chunks (example_env (\<lambda>k. 0) alternating_replies) start (str ''p'')
                  [(str ''harder'', 3), (str ''easier'', 3)]))
     = Inr [[harder_a, harder_b], [easier_a, easier_c]] \<and>
   variant easier_a = variant harder_a \<and>
   first_by variant (concat [[harder_a, harder_b], [easier_a, easier_c]])
     = [harder_a, harder_b, easier_c] \<and>
   distinct (map variant [harder_a, easier_c])"
proof -
  have d: "distinct [str ''harder'', str ''easier'']" by (simp add: str_def)
  have v: "variant easier_a = variant harder_a" "distinct (map variant [harder_a, easier_c])"
    by (simp_all add: harder_a_def easier_a_def easier_c_def harder_record_def
        easier_record_def str_def)
  have g: "gather (fst (run_chunks (example_env (\<lambda>k. 0) alternating_replies) start (str ''p'')
                  [(str ''harder'', 3), (str ''easier'', 3)]))
     = Inr [[harder_a, harder_b], [easier_a, easier_c]]"
    by (simp add: run_chunks_two_difficulties del: run_chunks.simps)
  from top_level_variants_unique [OF run_two_difficulties d] obtain tasks outs recursive where
    t: "make_tasks [str ''harder'', str ''easier''] 1 = Inr tasks"
       "gather (fst (run_chunks (example_env (\<lambda>k. 0) alternating_replies) start (str ''p'')
                     tasks)) = Inr outs"
       "[harder_a, easier_c] = spec_top_level outs [str ''harder'', str ''easier''] 1 @ recursive"
       "recursive = []"
       "distinct (map variant (spec_top_level outs [str ''harder'', str ''easier''] 1))"
       "set (spec_top_level outs [str ''harder'', str ''easier''] 1)
          \<subseteq> set (first_by variant (concat outs))"
    by auto
  then have "\<exists>tasks chunk_outputs recursive.
      make_tasks [str ''harder'', str ''easier''] 1 = Inr tasks \<and>
      gather (fst (run_chunks (example_env (\<lambda>k. 0) alternating_replies) start (str ''p'')
                     tasks)) = Inr chunk_outputs \<and>
      [harder_a, easier_c]
        = spec_top_level chunk_outputs [str ''harder'', str ''easier''] 1 @ recursive \<and>
      recursive = [] \<and>
      distinct (map variant (spec_top_level chunk_outputs [str ''harder'', str ''easier''] 1)) \<and>
      set (spec_top_level chunk_outputs [str ''harder'', str ''easier''] 1)
        \<subseteq> set (first_by variant (concat chunk_outputs))"
    by blast
  with run_two_difficulties d make_tasks_two_difficulties g v merge_two_difficulties(1)
  show ?thesis by blast
qed

text \<open>
  Claim C2, as stated: the returned list never holds more than \<open>num_variants\<close> records
  of one difficulty. This fails with a positive depth, since the records of the
  recursive runs carry the same difficulties, with a difficulty named twice in the
  list, and trivially for a negative count.
\<close>

theorem per_difficulty_bound_counterexample:
  "process_prompt (example_env (\<lambda>k. 0) (\<lambda>k. Inr one_variant_reply)) start (str ''p'')
      [str ''easier''] 1 1
   = (Inr [example_record (str ''p'') (str ''2025-01-02T03:04:05.000006Z''),
           example_record (str ''bar'') (str ''2025-01-02T03:04:05.000007Z'')],
      \<lparr>rand_pos = 12, call_pos = 2, clock_pos = 2\<rparr>) \<and>
   \<not> int (length (filter (\<lambda>r. requested_difficulty r = str ''easier'')
          [example_record (str ''p'') (str ''2025-01-02T03:04:05.000006Z''),
           example_record (str ''bar'') (str ''2025-01-02T03:04:05.000007Z'')])) \<le> 1 \<and>
   process_prompt (example_env (\<lambda>k. 0) (\<lambda>k. Inr one_variant_reply)) start (str ''p'')
      [str ''easier'', str ''easier''] 1 0
   = (Inr [example_record (str ''p'') (str ''2025-01-02T03:04:05.000006Z''),
           example_record (str ''p'') (str ''2025-01-02T03:04:05.000006Z'')],
      \<lparr>rand_pos = 12, call_pos = 2, clock_pos = 2\<rparr>) \<and>
   \<not> int (length (filter (\<lambda>r. requested_difficulty r = str ''easier'')
          [example_record (str ''p'') (str ''2025-01-02T03:04:05.000006Z''),
           example_record (str ''p'') (str ''2025-01-02T03:04:05.000006Z'')])) \<le> 1 \<and>
   process_prompt (example_env (\<lambda>k. 0) (\<lambda>k. Inr one_variant_reply)) start (str ''p'')
      [str ''easier''] (- 1) 0
   = (Inr [], start) \<and>
   \<not> int (length (filter (\<lambda>r. requested_difficulty r = str ''easier'') [])) \<le> - 1"
  using run_recursive run_repeated_difficulty run_negative_count by (simp add: example_record_def)

text \<open>
  Claim C2, amended. For a difficulty list without repetition, the records that a call
  of \<open>process_prompt\<close> collects itself, before it recurses, hold at most \<open>num_variants\<close>
  records of any one difficulty (none when \<open>num_variants\<close> is negative), at every depth.
  They are the first part of the returned list, and all of it when the depth is not
  positive, so that the bound then holds for the returned list.
\<close>

theorem records_per_difficulty_bounded:
  assumes "process_prompt env w base_prompt difficulties num_variants recursion_depth
             = (Inr results, w')"
    and "distinct difficulties"
  shows "\<exists>final_results recursive_results.
     fst (top_level env w base_prompt difficulties num_variants) = Inr final_results \<and>
     results = final_results @ recursive_results \<and>
     int (length (filter (\<lambda>r. requested_difficulty r = difficulty) final_results))
       \<le> max 0 num_variants \<and>
     (recursion_depth \<le> 0 \<longrightarrow>
        recursive_results = [] \<and>
        int (length (filter (\<lambda>r. requested_difficulty r = difficulty) results))
          \<le> max 0 num_variants)"
proof -
  from process_prompt_Inr[OF assms(1)] obtain outs w1 recursive where
    t: "top_level env w base_prompt difficulties num_variants
          = (Inr (spec_top_level outs difficulties num_variants), w1)" and
    rs: "results = spec_top_level outs difficulties num_variants @ recursive" and
    shallow: "recursion_depth \<le> 0 \<longrightarrow> recursive = []"
    by blast
  have "length (filter (\<lambda>r. requested_difficulty r = difficulty)
           (spec_top_level outs difficulties num_variants)) \<le> nat num_variants"
    unfolding spec_top_level_def by (rule count_groups[OF assms(2)])
  then have b: "int (length (filter (\<lambda>r. requested_difficulty r = difficulty)
           (spec_top_level outs difficulties num_variants))) \<le> max 0 num_variants"
    by linarith
  from t rs shallow b show ?thesis
    by (intro exI[of _ "spec_top_level outs difficulties num_variants"] exI[of _ recursive])
       auto
qed

text \<open>
  Two instances. In the first the cut acts: the chunk of \<^verbatim>\<open>harder\<close> returns two records
  and with \<open>num_variants = 1\<close> only the first is kept. In the second the depth is 1: the
  call collects one record of \<^verbatim>\<open>easier\<close>, and the returned list holds a second one, from
  the recursive call.
\<close>

theorem records_per_difficulty_bounded_witness:
  "process_prompt (example_env (\<lambda>k. 0) alternating_replies) start (str ''p'')
      [str ''harder'', str ''easier''] 1 0
   = (Inr [harder_a, easier_c], \<lparr>rand_pos = 12, call_pos = 2, clock_pos = 4\<rparr>) \<and>
   distinct [str ''harder'', str ''easier''] \<and>
   gather (fst (run_chunks (example_env (\<lambda>k. 0) alternating_replies) start (str ''p'')
                  [(str ''harder'', 3), (str ''easier'', 3)]))
     = Inr [[harder_a, harder_b], [easier_a, easier_c]] \<and>
   fst (top_level (example_env (\<lambda>k. 0) alternating_replies) start (str ''p'')
          [str ''harder'', str ''easier''] 1) = Inr [harder_a, easier_c] \<and>
   int (length (filter (\<lambda>r. requested_difficulty r = str ''harder'') [harder_a, easier_c]))
     \<le> max 0 1 \<and>
   process_prompt (example_env (\<lambda>k. 0) (\<lambda>k. Inr one_variant_reply)) start (str ''p'')
      [str ''easier''] 1 1
   = (Inr [example_record (str ''p'') (str ''2025-01-02T03:04:05.000006Z''),
           example_record (str ''bar'') (str ''2025-01-02T03:04:05.000007Z'')],
      \<lparr>rand_pos = 12, call_pos = 2, clock_pos = 2\<rparr>) \<and>
   distinct [str ''easier''] \<and>
   fst (top_level (example_env (\<lambda>k. 0) (\<lambda>k. Inr one_variant_reply)) start (str ''p'')
          [str ''easier''] 1)
     = Inr [example_record (str ''p'') (str ''2025-01-02T03:04:05.000006Z'')] \<and>
   int (length (filter (\<lambda>r. requested_difficulty r = str ''easier'')
          [example_record (str ''p'') (str ''2025-01-02T03:04:05.000006Z'')])) \<le> max 0 1"
proof -
  have d2: "distinct [str ''harder'', str ''easier'']" by (simp add: str_def)
  have d1: "distinct [str ''easier'']" by simp
  have g: "gather (fst (run_chunks (example_env (\<lambda>k. 0) alternating_replies) start (str ''p'')
                  [(str ''harder'', 3), (str ''easier'', 3)]))
     = Inr [[harder_a, harder_b], [easier_a, easier_c]]"
    by (simp add: run_chunks_two_difficulties del: run_chunks.simps)
  from records_per_difficulty_bounded [OF run_two_difficulties d2, of "str ''harder''"]
  have a: "fst (top_level (example_env (\<lambda>k. 0) alternating_replies) start (str ''p'')
          [str ''harder'', str ''easier''] 1) = Inr [harder_a, easier_c] \<and>
      int (length (filter (\<lambda>r. requested_difficulty r = str ''harder'') [harder_a, easier_c]))
        \<le> max 0 1"
    by auto
  from records_per_difficulty_bounded [OF run_recursive d1, of "str ''easier''"]
  have b: "fst (top_level (example_env (\<lambda>k. 0) (\<lambda>k. Inr one_variant_reply)) start (str ''p'')
          [str ''easier''] 1)
       = Inr [example_record (str ''p'') (str ''2025-01-02T03:04:05.000006Z'')] \<and>
     int (length (filter (\<lambda>r. requested_difficulty r = str ''easier'')
          [example_record (str ''p'') (str ''2025-01-02T03:04:05.000006Z'')])) \<le> max 0 1"
    by (auto simp: top_level_single)
  from run_two_difficulties d2 g a run_recursive d1 b show ?thesis by blast
qed

end
